theory Spec2Isabelle
  imports Main "HOL-Library.Char_ord" "HOL-Library.List_Lexorder"
    "HOL-Library.Product_Lexorder" "HOL-Library.AList"
begin

text \<open>
  The resumable inbox scan of the Apps Script project: the normalizer \<open>parseFrom\<close>, the
  aggregation of messages into buckets (\<open>processMessages\<close>), the indexed merge into the
  sheet (\<open>mergeRunMapUsingIndex\<close>), \<open>checkpoint\<close> and the driver
  \<open>buildSenderReportBatch\<close>. The services the script calls are modelled by their data:
  the inbox is a list of threads, the sheet a list of rows, the index sheet a list of
  pairs, the user properties a record, and the clock a sequence of readings.
\<close>

section \<open>Strings\<close>

text \<open>
  A JavaScript string is modelled as a \<^typ>\<open>string\<close> whose characters are the code units
  \<open>0x00\<close> to \<open>0xFF\<close>. The order on strings is the lexicographic order on code units, which is
  what JavaScript's comparison of two strings computes.
\<close>

definition isWhiteSpace :: "char \<Rightarrow> bool" where
  \<comment> \<open>the characters \<open>String.prototype.trim\<close> and the class \<open>\s\<close> remove, in this range\<close>
  "isWhiteSpace c = ((of_char c :: nat) \<in> {9, 10, 11, 12, 13, 32, 160})"

definition isUpperCase :: "char \<Rightarrow> bool" where
  "isUpperCase c =
     (let n = (of_char c :: nat)
      in (65 \<le> n \<and> n \<le> 90) \<or> (192 \<le> n \<and> n \<le> 222 \<and> n \<noteq> 215))"

definition toLowerChar :: "char \<Rightarrow> char" where
  "toLowerChar c = (if isUpperCase c then char_of ((of_char c :: nat) + 32) else c)"

definition toLowerCase :: "string \<Rightarrow> string" where
  "toLowerCase s = map toLowerChar s"

definition trim :: "string \<Rightarrow> string" where
  "trim s = rev (dropWhile isWhiteSpace (rev (dropWhile isWhiteSpace s)))"

definition isAlpha :: "char \<Rightarrow> bool" where
  \<comment> \<open>\<open>[A-Z]\<close> under the flag \<open>i\<close>\<close>
  "isAlpha c =
     (let n = (of_char c :: nat) in (65 \<le> n \<and> n \<le> 90) \<or> (97 \<le> n \<and> n \<le> 122))"

definition isDigit :: "char \<Rightarrow> bool" where
  "isDigit c = (let n = (of_char c :: nat) in 48 \<le> n \<and> n \<le> 57)"

definition isLocalChar :: "char \<Rightarrow> bool" where
  \<comment> \<open>\<open>[A-Z0-9._%+-]\<close> under the flag \<open>i\<close>\<close>
  "isLocalChar c = (isAlpha c \<or> isDigit c \<or> c \<in> set ''._%+-'')"

definition isDomainChar :: "char \<Rightarrow> bool" where
  \<comment> \<open>\<open>[A-Z0-9.-]\<close> under the flag \<open>i\<close>\<close>
  "isDomainChar c = (isAlpha c \<or> isDigit c \<or> c \<in> set ''.-'')"

definition stripQuotes :: "string \<Rightarrow> string" where
  \<comment> \<open>\<open>s.replace(/^"|"$/g, '')\<close>: one leading and, in what is left, one trailing quote\<close>
  "stripQuotes s =
     (let s1 = (case s of [] \<Rightarrow> [] | c # cs \<Rightarrow> if c = CHR 0x22 then cs else s)
      in if s1 \<noteq> [] \<and> last s1 = CHR 0x22 then butlast s1 else s1)"

definition isOpenJunk :: "char \<Rightarrow> bool" where
  \<comment> \<open>\<open>[("'\s]\<close>\<close>
  "isOpenJunk c = (c = CHR ''('' \<or> c = CHR 0x22 \<or> c = CHR 0x27 \<or> isWhiteSpace c)"

definition isCloseJunk :: "char \<Rightarrow> bool" where
  \<comment> \<open>\<open>[)"'\s]\<close>\<close>
  "isCloseJunk c = (c = CHR '')'' \<or> c = CHR 0x22 \<or> c = CHR 0x27 \<or> isWhiteSpace c)"

definition stripJunk :: "string \<Rightarrow> string" where
  \<comment> \<open>\<open>s.replace(/^[("'\s]+|[)"'\s]+$/g, '')\<close>\<close>
  "stripJunk s = rev (dropWhile isCloseJunk (rev (dropWhile isOpenJunk s)))"

section \<open>Record Normalizer: \<open>parseFrom\<close> and \<open>parseListUnsubscribeHeader\<close>\<close>

text \<open>
  \<open>rawFrom.match(/<([^>]+)>/)\<close>. The result is the text before the match, the captured group
  and the text after the match. The class \<open>[^>]\<close> is greedy and a closing bracket must
  follow it, so at a given opening bracket the match exists iff the run up to the next
  closing bracket is not empty and that bracket exists; the leftmost such position wins.
  The first argument collects, reversed, the characters already passed.
\<close>

fun angleMatch :: "string \<Rightarrow> string \<Rightarrow> (string \<times> string \<times> string) option" where
  "angleMatch pre [] = None"
| "angleMatch pre (c # cs) =
     (if c = CHR ''<'' \<and> takeWhile (\<lambda>x. x \<noteq> CHR ''>'') cs \<noteq> []
         \<and> dropWhile (\<lambda>x. x \<noteq> CHR ''>'') cs \<noteq> []
      then Some (rev pre, takeWhile (\<lambda>x. x \<noteq> CHR ''>'') cs,
                 tl (dropWhile (\<lambda>x. x \<noteq> CHR ''>'') cs))
      else angleMatch (c # pre) cs)"

text \<open>
  The tail \<open>[A-Z0-9.-]+\.[A-Z]{2,}\<close> of the bare pattern inside the maximal run \<open>drun\<close> of
  domain characters that follows the \<open>@\<close>: the greedy class backtracks from the longest prefix
  to the shortest (length \<open>k\<close>, at least 1) until a dot and two letters follow; the letters
  are then taken greedily. The result is the matched text and the rest of the run.
\<close>

fun domainSplit :: "nat \<Rightarrow> string \<Rightarrow> (string \<times> string) option" where
  "domainSplit 0 drun = None"
| "domainSplit (Suc k) drun =
     (if Suc k < length drun \<and> drun ! Suc k = CHR ''.''
         \<and> 2 \<le> length (takeWhile isAlpha (drop (Suc (Suc k)) drun))
      then Some (take (Suc k) drun @ ''.'' @ takeWhile isAlpha (drop (Suc (Suc k)) drun),
                 dropWhile isAlpha (drop (Suc (Suc k)) drun))
      else domainSplit k drun)"

definition bareAt :: "string \<Rightarrow> (string \<times> string) option" where
  \<comment> \<open>the bare pattern anchored at the start of \<open>s\<close>: the match and what follows it\<close>
  "bareAt s =
     (let loc = takeWhile isLocalChar s in
      if loc = [] then None
      else (case dropWhile isLocalChar s of
              [] \<Rightarrow> None
            | c # r \<Rightarrow>
                if c \<noteq> CHR ''@'' then None
                else (let drun = takeWhile isDomainChar r in
                      case domainSplit (length drun - 1) drun of
                        None \<Rightarrow> None
                      | Some (d, restDom) \<Rightarrow>
                          Some (loc @ ''@'' @ d, restDom @ dropWhile isDomainChar r))))"

text \<open>\<open>rawFrom.match(/[A-Z0-9._%+-]+@[A-Z0-9.-]+\.[A-Z]{2,}/i)\<close>: the leftmost match.\<close>

fun bareMatch :: "string \<Rightarrow> string \<Rightarrow> (string \<times> string \<times> string) option" where
  "bareMatch pre [] = None"
| "bareMatch pre (c # cs) =
     (case bareAt (c # cs) of
        Some (m, post) \<Rightarrow> Some (rev pre, m, post)
      | None \<Rightarrow> bareMatch (c # pre) cs)"

text \<open>
  \<open>parseFrom\<close> returns \<open>{ email, name: name || null }\<close>. \<open>rawFrom.replace(m, '')\<close> with the
  matched text \<open>m\<close> removes its first occurrence, which is the leftmost match itself: the
  text before and the text after the match remain.
\<close>

definition parseFrom :: "string \<Rightarrow> string \<times> string option" where
  "parseFrom rawFrom =
     (let (email0, name0) =
            (case angleMatch [] rawFrom of
               Some (pre, inner, post) \<Rightarrow> (trim inner, stripQuotes (trim (pre @ post)))
             | None \<Rightarrow>
                 (case bareMatch [] rawFrom of
                    Some (pre, m, post) \<Rightarrow> (trim m, stripJunk (trim (pre @ post)))
                  | None \<Rightarrow> ([], [])));
          email1 = (if email0 \<noteq> [] then toLowerCase email0 else email0);
          name1 = (if name0 \<noteq> [] then stripQuotes name0 else name0)
      in (email1, if name1 = [] then None else Some name1))"

fun splitOn :: "char \<Rightarrow> string \<Rightarrow> string \<Rightarrow> string list" where
  \<comment> \<open>\<open>s.split(',')\<close>; the second argument is the current piece, reversed\<close>
  "splitOn d acc [] = [rev acc]"
| "splitOn d acc (c # cs) =
     (if c = d then rev acc # splitOn d [] cs else splitOn d (c # acc) cs)"

definition stripAngles :: "string \<Rightarrow> string" where
  \<comment> \<open>\<open>s.replace(/^<|>$/g, '')\<close>\<close>
  "stripAngles s =
     (let s1 = (case s of [] \<Rightarrow> [] | c # cs \<Rightarrow> if c = CHR ''<'' then cs else s)
      in if s1 \<noteq> [] \<and> last s1 = CHR ''>'' then butlast s1 else s1)"

definition startsWithCI :: "string \<Rightarrow> string \<Rightarrow> bool" where
  \<comment> \<open>a literal ASCII prefix tested under the flag \<open>i\<close>; \<open>p\<close> is given in lower case\<close>
  "startsWithCI p s = (length p \<le> length s \<and> map toLowerChar (take (length p) s) = p)"

definition isHttpUrl :: "string \<Rightarrow> bool" where
  \<comment> \<open>\<open>/^https?:\/\//i.test(p)\<close>\<close>
  "isHttpUrl p = (startsWithCI ''http://'' p \<or> startsWithCI ''https://'' p)"

definition isMailto :: "string \<Rightarrow> bool" where
  \<comment> \<open>\<open>/^mailto:/i.test(p)\<close>\<close>
  "isMailto p = startsWithCI ''mailto:'' p"

record unsub =
  url :: "string option"
  mailto :: "string option"

fun unsubScan :: "string list \<Rightarrow> unsub \<Rightarrow> unsub" where
  \<comment> \<open>the loop \<open>for (const p of parts)\<close>; \<open>url || p\<close> keeps a value already found\<close>
  "unsubScan [] u = u"
| "unsubScan (p # ps) u =
     unsubScan ps
       (if isHttpUrl p then u\<lparr>url := (case url u of None \<Rightarrow> Some p | Some x \<Rightarrow> Some x)\<rparr>
        else if isMailto p
        then u\<lparr>mailto := (case mailto u of None \<Rightarrow> Some p | Some x \<Rightarrow> Some x)\<rparr>
        else u)"

definition parseListUnsubscribeHeader :: "string \<Rightarrow> unsub option" where
  "parseListUnsubscribeHeader headerValue =
     (if headerValue = [] then None
      else (let parts = map (\<lambda>s. stripAngles (trim s)) (splitOn CHR '','' [] headerValue);
                u = unsubScan parts \<lparr>url = None, mailto = None\<rparr>
            in if url u \<noteq> None \<or> mailto u \<noteq> None then Some u else None))"

section \<open>Run Aggregator: \<open>processMessages\<close>\<close>

text \<open>
  A message as \<open>processMessages\<close> reads it: \<open>isInInbox()\<close>, \<open>getFrom() || ''\<close>,
  \<open>getSubject() || ''\<close>, the text \<open>Utilities.formatDate(m.getDate(), tz, ...)\<close> and
  \<open>getHeader('List-Unsubscribe') || ''\<close>. A thread is the list of its messages.
\<close>

record message =
  isInInbox :: bool
  getFrom :: string
  getSubject :: string
  dateIso :: string
  listUnsubscribe :: string

type_synonym thread = "message list"

record bucket =
  email :: string
  name :: "string option"
  count :: nat
  sampleSubject :: "string option"
  lastSeen :: "string option"
  unsubUrl :: "string option"
  unsubMailto :: "string option"

text \<open>
  \<open>runMap\<close> is a JavaScript object used as a dictionary. Its own properties are kept as an
  association list in insertion order. A value that is \<open>null\<close> is \<open>None\<close>; the empty string
  is the only other falsy value a string field can hold.
\<close>

type_synonym runMap = "(string \<times> bucket) list"

definition truthy :: "string option \<Rightarrow> bool" where
  "truthy v = (v \<noteq> None \<and> v \<noteq> Some [])"

definition orEmpty :: "string option \<Rightarrow> string" where
  \<comment> \<open>\<open>v || ''\<close>\<close>
  "orEmpty v = (case v of None \<Rightarrow> [] | Some s \<Rightarrow> s)"

definition objectPrototypeKeys :: "string list" where
  \<comment> \<open>the properties every object literal inherits: \<open>runMap[key]\<close> is truthy for them
      although \<open>runMap\<close> has no own property of that name\<close>
  "objectPrototypeKeys =
     [''constructor'', ''__proto__'', ''hasOwnProperty'', ''isPrototypeOf'',
      ''propertyIsEnumerable'', ''toLocaleString'', ''toString'', ''valueOf'',
      ''__defineGetter__'', ''__defineSetter__'', ''__lookupGetter__'', ''__lookupSetter__'']"

definition newBucket :: "string \<Rightarrow> string option \<Rightarrow> bucket" where
  "newBucket e n =
     \<lparr>email = e, name = (if truthy n then n else None), count = 0, sampleSubject = None,
      lastSeen = None, unsubUrl = None, unsubMailto = None\<rparr>"

definition absorb :: "bucket \<Rightarrow> string \<Rightarrow> string \<Rightarrow> unsub option \<Rightarrow> bucket" where
  \<comment> \<open>the updates of one message on its bucket (the statements after
      \<open>const bucket = runMap[key]\<close>); each statement reads and writes one field\<close>
  "absorb b subject dIso u =
     b\<lparr>count := count b + 1,
       sampleSubject := (if \<not> truthy (sampleSubject b) \<and> subject \<noteq> []
                         then Some subject else sampleSubject b),
       lastSeen := (if \<not> truthy (lastSeen b) \<or> dIso > orEmpty (lastSeen b)
                    then Some dIso else lastSeen b),
       unsubUrl := (case u of
                      None \<Rightarrow> unsubUrl b
                    | Some us \<Rightarrow> if truthy (url us) \<and> \<not> truthy (unsubUrl b)
                                then url us else unsubUrl b),
       unsubMailto := (case u of
                         None \<Rightarrow> unsubMailto b
                       | Some us \<Rightarrow> if truthy (mailto us) \<and> \<not> truthy (unsubMailto b)
                                   then mailto us else unsubMailto b)\<rparr>"

definition processMessage :: "message \<Rightarrow> runMap \<Rightarrow> runMap" where
  \<comment> \<open>the body of the loop \<open>for (const m of msgs)\<close>\<close>
  "processMessage m rm =
     (if \<not> isInInbox m then rm
      else (let (e, n) = parseFrom (getFrom m) in
            if e = [] then rm
            else (let key = toLowerCase e in
                  if key \<in> set objectPrototypeKeys then rm
                  else (let b = (case map_of rm key of
                                   None \<Rightarrow> newBucket e n
                                 | Some b0 \<Rightarrow> b0)
                        in AList.update key
                             (absorb b (getSubject m) (dateIso m)
                                (parseListUnsubscribeHeader (listUnsubscribe m)))
                             rm))))"

fun processMessages :: "message list \<Rightarrow> runMap \<Rightarrow> runMap" where
  "processMessages [] rm = rm"
| "processMessages (m # ms) rm = processMessages ms (processMessage m rm)"

section \<open>The persistent store and the index\<close>

text \<open>
  One data row of the sheet \<open>Sender Report\<close>, columns A to J, holding what the code writes
  there. The sheet is the list of its data rows: row 1 is the header, and the data row at
  list position \<open>i\<close> is the spreadsheet row \<open>i + 2\<close>, so \<open>getLastRow()\<close> is the length plus 1.
  The index sheet \<open>_SenderIndex\<close> is the list of its rows \<open>[email_lc, row]\<close> below the header.
\<close>

record row =
  act :: bool
  senderEmail :: string
  senderName :: string
  rowCount :: nat
  exampleSubject :: string
  lastSeenIso :: string
  unsubscribeUrl :: string
  unsubscribeMailto :: string
  notesStatus :: string
  processed :: string

type_synonym sheet = "row list"
type_synonym indexSheet = "(string \<times> nat) list"

definition emptyRow :: row where
  \<comment> \<open>what the code's conversions make of the cells of a blank row\<close>
  "emptyRow =
     \<lparr>act = False, senderEmail = [], senderName = [], rowCount = 0, exampleSubject = [],
      lastSeenIso = [], unsubscribeUrl = [], unsubscribeMailto = [], notesStatus = [],
      processed = []\<rparr>"

definition getLastRow :: "'a list \<Rightarrow> nat" where
  "getLastRow rows = length rows + 1"

definition getRow :: "sheet \<Rightarrow> nat \<Rightarrow> row" where
  \<comment> \<open>\<open>sheet.getRange(r, 1, 1, 10).getValues()[0]\<close>\<close>
  "getRow sh r = (if 2 \<le> r \<and> r - 2 < length sh then sh ! (r - 2) else emptyRow)"

definition setRow :: "sheet \<Rightarrow> nat \<Rightarrow> row \<Rightarrow> sheet" where
  \<comment> \<open>\<open>sheet.getRange(r, 1, 1, 10).setValues([v])\<close> for \<open>r \<ge> 2\<close>; a write below the last row
      leaves blank rows in between\<close>
  "setRow sh r v = (sh @ replicate (r - 1 - length sh) emptyRow)[r - 2 := v]"

definition readIndex :: "indexSheet \<Rightarrow> (string \<rightharpoonup> nat)" where
  \<comment> \<open>a later row overwrites an earlier one; assigning \<open>m['__proto__']\<close> creates no property\<close>
  "readIndex values =
     foldl (\<lambda>m (k, r).
              (let emailLc = toLowerCase (trim k)
               in if emailLc \<noteq> [] \<and> r > 1 \<and> emailLc \<noteq> ''__proto__''
                  then m(emailLc \<mapsto> r) else m))
       Map.empty values"

definition buildRowFromBucket :: "bucket \<Rightarrow> row" where
  "buildRowFromBucket b =
     \<lparr>act = False, senderEmail = email b, senderName = orEmpty (name b), rowCount = count b,
      exampleSubject = orEmpty (sampleSubject b), lastSeenIso = orEmpty (lastSeen b),
      unsubscribeUrl = orEmpty (unsubUrl b), unsubscribeMailto = orEmpty (unsubMailto b),
      notesStatus = [], processed = []\<rparr>"

definition mergeRowVals :: "row \<Rightarrow> bucket \<Rightarrow> row" where
  \<comment> \<open>\<open>newRowVals\<close>, computed from the row \<open>vals\<close> read at the indexed location\<close>
  "mergeRowVals vals b =
     (let newCount = rowCount vals + count b;
          subject = (if exampleSubject vals \<noteq> [] then exampleSubject vals
                     else orEmpty (sampleSubject b));
          existingLast = lastSeenIso vals;
          lastSeen' = (if existingLast = [] \<or> (truthy (lastSeen b) \<and> orEmpty (lastSeen b) > existingLast)
                       then (if truthy (lastSeen b) then orEmpty (lastSeen b) else existingLast)
                       else existingLast);
          unsubUrl' = (if unsubscribeUrl vals \<noteq> [] then unsubscribeUrl vals
                       else orEmpty (unsubUrl b));
          unsubMailto' = (if unsubscribeMailto vals \<noteq> [] then unsubscribeMailto vals
                          else orEmpty (unsubMailto b));
          name' = (if senderName vals \<noteq> [] then senderName vals else orEmpty (name b))
      in \<lparr>act = act vals,
          senderEmail = (if senderEmail vals \<noteq> [] then senderEmail vals else email b),
          senderName = name', rowCount = newCount, exampleSubject = subject,
          lastSeenIso = lastSeen', unsubscribeUrl = unsubUrl',
          unsubscribeMailto = unsubMailto', notesStatus = notesStatus vals,
          processed = processed vals\<rparr>)"

text \<open>
  \<open>Object.keys(runMap)\<close> lists the keys that are array indices (canonical decimal numerals
  up to \<open>2^32 - 2\<close>) first, in ascending numeric order, and then the other keys in insertion
  order. Canonical numerals are compared by length first and then as strings, which is
  their numeric order.
\<close>

definition isArrayIndex :: "string \<Rightarrow> bool" where
  "isArrayIndex k =
     (k \<noteq> [] \<and> (\<forall>c \<in> set k. isDigit c) \<and> (hd k \<noteq> CHR ''0'' \<or> length k = 1)
      \<and> (length k < 10 \<or> (length k = 10 \<and> k \<le> ''4294967294'')))"

definition objectEntries :: "runMap \<Rightarrow> (string \<times> bucket) list" where
  "objectEntries rm =
     sort_key (\<lambda>kb. (length (fst kb), fst kb)) (filter (\<lambda>kb. isArrayIndex (fst kb)) rm)
       @ filter (\<lambda>kb. \<not> isArrayIndex (fst kb)) rm"

text \<open>
  The loop \<open>for (const key of Object.keys(runMap))\<close>: the rows to append, and the updates
  \<open>{key, row, bucket}\<close> of keys the index already has, both in the order of the keys.
\<close>

fun partitionKeys ::
  "(string \<rightharpoonup> nat) \<Rightarrow> (string \<times> bucket) list
     \<Rightarrow> (string \<times> row) list \<times> (string \<times> nat \<times> bucket) list" where
  "partitionKeys indexMap [] = ([], [])"
| "partitionKeys indexMap ((key, b) # rest) =
     (case indexMap key of
        Some r \<Rightarrow> (fst (partitionKeys indexMap rest),
                   (key, r, b) # snd (partitionKeys indexMap rest))
      | None \<Rightarrow> ((key, buildRowFromBucket b) # fst (partitionKeys indexMap rest),
                 snd (partitionKeys indexMap rest)))"

definition updateExisting :: "sheet \<Rightarrow> string \<times> nat \<times> bucket \<Rightarrow> sheet" where
  \<comment> \<open>the body of \<open>for (const { key, row, bucket } of existingUpdates)\<close>\<close>
  "updateExisting sh u =
     (case u of (key, r, b) \<Rightarrow>
        if r < 2 then sh else setRow sh r (mergeRowVals (getRow sh r) b))"

definition sortByCountDesc :: "sheet \<Rightarrow> sheet" where
  \<comment> \<open>\<open>filter.sort(4, false)\<close> on the filter of the sheet: the data rows below the header
      are reordered by column D, largest count first, and rows with equal counts keep
      their order. The rows move: a row number names a position of the sheet\<close>
  "sortByCountDesc sh = sort_key (\<lambda>r. - int (rowCount r)) sh"

definition mergeWrites :: "sheet \<Rightarrow> indexSheet \<Rightarrow> runMap \<Rightarrow> sheet \<times> indexSheet" where
  \<comment> \<open>\<open>mergeRunMapUsingIndex\<close> up to the comment \<open>Re-sort by Count desc\<close>\<close>
  "mergeWrites sh ix rm =
     (let indexMap = readIndex ix;
          newRows = fst (partitionKeys indexMap (objectEntries rm));
          existingUpdates = snd (partitionKeys indexMap (objectEntries rm));
          firstNewRow = getLastRow sh + 1;
          sh1 = sh @ map snd newRows;
          ix1 = ix @ zip (map fst newRows) [firstNewRow ..< firstNewRow + length newRows]
      in (foldl updateExisting sh1 existingUpdates, ix1))"

definition mergeRunMapUsingIndex :: "sheet \<Rightarrow> indexSheet \<Rightarrow> runMap \<Rightarrow> sheet \<times> indexSheet" where
  "mergeRunMapUsingIndex sh ix rm =
     (if rm = [] then (sh, ix)
      else (sortByCountDesc (fst (mergeWrites sh ix rm)), snd (mergeWrites sh ix rm)))"

record stats =
  senderCount :: nat
  totalEmails :: nat

definition getSheetStats :: "sheet \<Rightarrow> stats" where
  "getSheetStats sh =
     \<lparr>senderCount = length (filter (\<lambda>r. rowCount r > 0) sh),
      totalEmails = sum_list (map rowCount (filter (\<lambda>r. rowCount r > 0) sh))\<rparr>"

section \<open>Scan Driver: \<open>checkpoint\<close> and \<open>buildSenderReportBatch\<close>\<close>

definition PAGE_SIZE_THREADS :: nat where
  "PAGE_SIZE_THREADS = 50"

definition CHECKPOINT_THREADS :: nat where
  "CHECKPOINT_THREADS = 100"

definition CHECKPOINT_INTERVAL_MS :: int where
  "CHECKPOINT_INTERVAL_MS = 60 * 1000"

definition RUNTIME_HARD_LIMIT_MS :: int where
  "RUNTIME_HARD_LIMIT_MS = 5 * 60 * 1000"

text \<open>
  The user properties \<open>cursor\<close>, \<open>totalProcessed\<close> and \<open>initialized\<close>. The two counters are
  written as \<open>String(n)\<close> and read back with \<open>parseInt\<close>, so the number itself is kept;
  \<open>None\<close> is a property that is not set.
\<close>

record props =
  CURSOR :: "nat option"
  TOTAL_PROCESSED :: "nat option"
  INITIALIZED :: bool

text \<open>
  The inbox is the list of the threads that match the query, in the order of their offsets;
  \<open>GmailApp.search(query, start, max)\<close> is a slice of it. \<open>Date.now()\<close> is an input: the
  \<open>k\<close>-th reading of a run is \<open>clock k\<close>, and the state counts the readings taken.
\<close>

definition search :: "thread list \<Rightarrow> nat \<Rightarrow> nat \<Rightarrow> thread list" where
  "search inbox start maxN = take maxN (drop start inbox)"

type_synonym clock = "nat \<Rightarrow> int"

definition checkpoint ::
  "sheet \<Rightarrow> indexSheet \<Rightarrow> props \<Rightarrow> runMap \<Rightarrow> nat \<Rightarrow> nat \<Rightarrow> sheet \<times> indexSheet \<times> props" where
  "checkpoint sh ix pr rm cur tot =
     (fst (mergeRunMapUsingIndex sh ix rm), snd (mergeRunMapUsingIndex sh ix rm),
      pr\<lparr>CURSOR := Some cur, TOTAL_PROCESSED := Some tot\<rparr>)"

record scanState =
  sheet :: sheet
  indexSheet :: indexSheet
  props :: props
  cursor :: nat
  totalProcessed :: nat
  runMap :: runMap
  threadsSinceCheckpoint :: nat
  lastCheckpointTime :: int
  checkpointCount :: nat
  ticks :: nat
  consoleLog :: "(nat \<times> stats) list"

definition doCheckpoint :: "scanState \<Rightarrow> scanState" where
  \<comment> \<open>the call of \<open>checkpoint\<close> with its counter and its log line: the cursor and the totals
      \<open>statsAfter\<close> read from the sheet\<close>
  "doCheckpoint s =
     (let r = checkpoint (sheet s) (indexSheet s) (props s) (runMap s) (cursor s)
                (totalProcessed s)
      in s\<lparr>sheet := fst r, indexSheet := fst (snd r), props := snd (snd r),
            checkpointCount := checkpointCount s + 1,
            consoleLog := consoleLog s @ [(cursor s, getSheetStats (fst r))]\<rparr>)"

fun processThreads :: "clock \<Rightarrow> int \<Rightarrow> thread list \<Rightarrow> runMap \<Rightarrow> nat \<Rightarrow> runMap \<times> nat" where
  \<comment> \<open>the loop \<open>for (let tIdx = 0; ...)\<close> over the fetched page, from the run map and the
      number of clock readings before it to those after it\<close>
  "processThreads clk runStart [] rm t = (rm, t)"
| "processThreads clk runStart (msgs # rest) rm t =
     (if clk t - runStart > RUNTIME_HARD_LIMIT_MS then (rm, Suc t)
      else processThreads clk runStart rest
             (if msgs = [] then rm else processMessages msgs rm) (Suc t))"

definition loopBody :: "clock \<Rightarrow> int \<Rightarrow> thread list \<Rightarrow> scanState \<Rightarrow> scanState" where
  \<comment> \<open>one iteration of \<open>while (true)\<close> after the page \<open>threads\<close> has been fetched\<close>
  "loopBody clk runStart threads s =
     (let pt = processThreads clk runStart threads (runMap s) (ticks s);
          t = snd pt;
          s1 = s\<lparr>runMap := fst pt,
                 cursor := cursor s + length threads,
                 threadsSinceCheckpoint := threadsSinceCheckpoint s + length threads,
                 totalProcessed := totalProcessed s + length threads,
                 ticks := Suc t\<rparr>;
          timeSinceCheckpoint = clk t - lastCheckpointTime s;
          shouldCheckpoint = (threadsSinceCheckpoint s1 \<ge> CHECKPOINT_THREADS
                              \<or> timeSinceCheckpoint \<ge> CHECKPOINT_INTERVAL_MS)
      in if shouldCheckpoint \<and> runMap s1 \<noteq> []
         then (doCheckpoint s1)\<lparr>runMap := [], threadsSinceCheckpoint := 0,
                 lastCheckpointTime := clk (Suc t), ticks := Suc (Suc t)\<rparr>
         else s1)"

function mainLoop :: "clock \<Rightarrow> int \<Rightarrow> thread list \<Rightarrow> scanState \<Rightarrow> scanState" where
  "mainLoop clk runStart inbox s =
     (if clk (ticks s) - runStart > RUNTIME_HARD_LIMIT_MS then s\<lparr>ticks := Suc (ticks s)\<rparr>
      else if search inbox (cursor s) PAGE_SIZE_THREADS = [] then s\<lparr>ticks := Suc (ticks s)\<rparr>
      else mainLoop clk runStart inbox
             (loopBody clk runStart (search inbox (cursor s) PAGE_SIZE_THREADS)
                (s\<lparr>ticks := Suc (ticks s)\<rparr>)))"
  by pat_completeness auto
termination
  by (relation "measure (\<lambda>(clk, runStart, inbox, s). length inbox - cursor s)")
     (auto simp: loopBody_def doCheckpoint_def search_def Let_def)

declare mainLoop.simps [simp del]

definition setupHeader :: "sheet \<Rightarrow> sheet" where
  \<comment> \<open>writes the header row; the data rows are cleared only when there are none\<close>
  "setupHeader sh = (if getLastRow sh > 1 then sh else [])"

definition resetIndexSheet :: "indexSheet \<Rightarrow> indexSheet" where
  "resetIndexSheet ix = (if getLastRow ix > 1 then ix else [])"

definition propOr0 :: "nat option \<Rightarrow> nat" where
  \<comment> \<open>\<open>parseInt(props.getProperty(k) || '0', 10)\<close>\<close>
  "propOr0 v = (case v of None \<Rightarrow> 0 | Some n \<Rightarrow> n)"

definition firstTimeInit :: "sheet \<Rightarrow> indexSheet \<Rightarrow> props \<Rightarrow> sheet \<times> indexSheet \<times> props" where
  \<comment> \<open>\<open>if (!props.getProperty(KEYS.INITIALIZED)) { ... }\<close>\<close>
  "firstTimeInit sh ix pr =
     (if INITIALIZED pr then (sh, ix, pr)
      else if getLastRow sh > 1 \<or> getLastRow ix > 1
      then (sh, ix, pr\<lparr>CURSOR := Some 0, TOTAL_PROCESSED := Some 0, INITIALIZED := True\<rparr>)
      else (setupHeader sh, resetIndexSheet ix,
            pr\<lparr>CURSOR := Some 0, TOTAL_PROCESSED := Some 0, INITIALIZED := True\<rparr>))"

datatype outcome =
    NothingNew stats
  | NoMessages
  | ScanComplete nat stats
  | ProgressSaved nat stats nat

definition startState :: "clock \<Rightarrow> sheet \<Rightarrow> indexSheet \<Rightarrow> props \<Rightarrow> scanState" where
  \<comment> \<open>the variables of \<open>buildSenderReportBatch\<close> when the main loop is reached; \<open>runStart\<close> is
      the reading \<open>clock 0\<close> and \<open>lastCheckpointTime\<close> the reading \<open>clock 1\<close>\<close>
  "startState clk sh ix pr =
     (let i = firstTimeInit sh ix pr
      in \<lparr>sheet = fst i, indexSheet = fst (snd i), props = snd (snd i),
          cursor = propOr0 (CURSOR (snd (snd i))),
          totalProcessed = propOr0 (TOTAL_PROCESSED (snd (snd i))),
          runMap = [], threadsSinceCheckpoint = 0, lastCheckpointTime = clk 1,
          checkpointCount = 0, ticks = 2, consoleLog = []\<rparr>)"

definition finish :: "thread list \<Rightarrow> scanState \<Rightarrow> scanState \<times> outcome" where
  \<comment> \<open>from \<open>// Final checkpoint for any remaining data\<close> to the end\<close>
  "finish inbox s1 =
     (let s2 = (if runMap s1 \<noteq> [] then doCheckpoint s1 else s1);
          done = (search inbox (cursor s2) 1 = []);
          finalStats = getSheetStats (sheet s2)
      in if done
         then (s2\<lparr>props := (props s2)\<lparr>CURSOR := None, INITIALIZED := False,
                                      TOTAL_PROCESSED := None\<rparr>\<rparr>,
               ScanComplete (totalProcessed s2) finalStats)
         else (s2\<lparr>props := (props s2)\<lparr>CURSOR := Some (cursor s2),
                                      TOTAL_PROCESSED := Some (totalProcessed s2)\<rparr>\<rparr>,
               ProgressSaved (totalProcessed s2) finalStats (cursor s2)))"

definition buildSenderReportBatch ::
  "clock \<Rightarrow> thread list \<Rightarrow> sheet \<Rightarrow> indexSheet \<Rightarrow> props \<Rightarrow> scanState \<times> outcome" where
  "buildSenderReportBatch clk inbox sh ix pr =
     (let s0 = startState clk sh ix pr
      in if search inbox (cursor s0) 1 = []
         then (s0, if senderCount (getSheetStats (sheet s0)) > 0
                   then NothingNew (getSheetStats (sheet s0)) else NoMessages)
         else finish inbox (mainLoop clk (clk 0) inbox s0))"

section \<open>What is durable at the instruction boundaries of \<open>checkpoint\<close>\<close>

text \<open>
  \<open>checkpoint\<close> is three statements: the merge, the two \<open>props.setProperty\<close> calls and
  \<open>SpreadsheetApp.flush()\<close>, whose comment reads: Apps Script batches writes, this ensures
  they're committed. A property is stored by \<open>setProperty\<close> itself. The list below is what
  is durable at each boundary: on entry, after the merge, after each \<open>setProperty\<close> and after
  the flush. The spreadsheet service may commit the batched writes of the merge before
  the flush (\<open>early\<close>) or hold them until then.
\<close>

record durable =
  committedSheet :: sheet
  committedIndex :: indexSheet
  savedProps :: props

definition checkpointBoundaries ::
  "bool \<Rightarrow> sheet \<Rightarrow> indexSheet \<Rightarrow> props \<Rightarrow> runMap \<Rightarrow> nat \<Rightarrow> nat \<Rightarrow> durable list" where
  "checkpointBoundaries early sh ix pr rm cur tot =
     (let m = mergeRunMapUsingIndex sh ix rm;
          held = (if early then m else (sh, ix))
      in [\<lparr>committedSheet = sh, committedIndex = ix, savedProps = pr\<rparr>,
          \<lparr>committedSheet = fst held, committedIndex = snd held, savedProps = pr\<rparr>,
          \<lparr>committedSheet = fst held, committedIndex = snd held,
           savedProps = pr\<lparr>CURSOR := Some cur\<rparr>\<rparr>,
          \<lparr>committedSheet = fst held, committedIndex = snd held,
           savedProps = pr\<lparr>CURSOR := Some cur, TOTAL_PROCESSED := Some tot\<rparr>\<rparr>,
          \<lparr>committedSheet = fst m, committedIndex = snd m,
           savedProps = pr\<lparr>CURSOR := Some cur, TOTAL_PROCESSED := Some tot\<rparr>\<rparr>])"

section \<open>Vocabulary of the properties\<close>

definition counted :: "message \<Rightarrow> bool" where
  \<comment> \<open>the messages \<open>processMessages\<close> adds to a bucket: in the inbox, with an address, whose
      key is not a name inherited by \<open>runMap\<close>\<close>
  "counted m =
     (isInInbox m \<and> fst (parseFrom (getFrom m)) \<noteq> []
      \<and> toLowerCase (fst (parseFrom (getFrom m))) \<notin> set objectPrototypeKeys)"

definition keyOf :: "message \<Rightarrow> string" where
  \<comment> \<open>\<open>email.toLowerCase()\<close>, the key of a message\<close>
  "keyOf m = toLowerCase (fst (parseFrom (getFrom m)))"

definition countedIn :: "thread list \<Rightarrow> nat \<Rightarrow> nat \<Rightarrow> nat" where
  \<comment> \<open>the number of counted messages in the threads at the offsets \<open>a \<le> i < b\<close>\<close>
  "countedIn inbox a b =
     sum_list (map (\<lambda>t. length (filter counted t)) (take (b - a) (drop a inbox)))"

definition runMapTotal :: "runMap \<Rightarrow> nat" where
  "runMapTotal rm = sum_list (map (\<lambda>kb. count (snd kb)) rm)"

definition pageInterrupted :: "clock \<Rightarrow> int \<Rightarrow> nat \<Rightarrow> nat \<Rightarrow> bool" where
  \<comment> \<open>the time check inside the loop over a page of \<open>n\<close> threads fires; \<open>t\<close> readings of the
      clock were taken before the loop\<close>
  "pageInterrupted clk runStart n t =
     list_ex (\<lambda>i. clk (t + i) - runStart > RUNTIME_HARD_LIMIT_MS) [0 ..< n]"

function hardLimitMidPage :: "clock \<Rightarrow> int \<Rightarrow> thread list \<Rightarrow> scanState \<Rightarrow> bool" where
  \<comment> \<open>in the run of \<open>mainLoop\<close> from \<open>s\<close>, the hard limit stops the loop over some page\<close>
  "hardLimitMidPage clk runStart inbox s =
     (if clk (ticks s) - runStart > RUNTIME_HARD_LIMIT_MS then False
      else if search inbox (cursor s) PAGE_SIZE_THREADS = [] then False
      else pageInterrupted clk runStart
             (length (search inbox (cursor s) PAGE_SIZE_THREADS)) (Suc (ticks s))
           \<or> hardLimitMidPage clk runStart inbox
               (loopBody clk runStart (search inbox (cursor s) PAGE_SIZE_THREADS)
                  (s\<lparr>ticks := Suc (ticks s)\<rparr>)))"
  by pat_completeness auto
termination
  by (relation "measure (\<lambda>(clk, runStart, inbox, s). length inbox - cursor s)")
     (auto simp: loopBody_def doCheckpoint_def search_def Let_def)

declare hardLimitMidPage.simps [simp del]

definition absorbMessage :: "bucket \<Rightarrow> message \<Rightarrow> bucket" where
  \<comment> \<open>\<open>absorb\<close> with the fields of a message, as \<open>processMessage\<close> calls it\<close>
  "absorbMessage b m =
     absorb b (getSubject m) (dateIso m) (parseListUnsubscribeHeader (listUnsubscribe m))"

definition headerUrl :: "message \<Rightarrow> string option" where
  \<comment> \<open>\<open>unsub.url\<close> of a message, \<open>None\<close> when \<open>unsub\<close> is \<open>null\<close>\<close>
  "headerUrl m =
     (case parseListUnsubscribeHeader (listUnsubscribe m) of None \<Rightarrow> None | Some u \<Rightarrow> url u)"

definition headerMailto :: "message \<Rightarrow> string option" where
  "headerMailto m =
     (case parseListUnsubscribeHeader (listUnsubscribe m) of
        None \<Rightarrow> None | Some u \<Rightarrow> mailto u)"

definition firstTruthy :: "string option list \<Rightarrow> string option" where
  \<comment> \<open>the first value of a list that is neither \<open>null\<close> nor empty\<close>
  "firstTruthy vs = (case find truthy vs of None \<Rightarrow> None | Some v \<Rightarrow> v)"

definition keysFolded :: "runMap \<Rightarrow> bool" where
  \<comment> \<open>every bucket holds its own key as address, and the key is in lower case\<close>
  "keysFolded rm = (\<forall>(k, b) \<in> set rm. email b = k \<and> toLowerCase k = k)"

definition normalKey :: "string \<Rightarrow> bool" where
  \<comment> \<open>a key that \<open>readIndex\<close> stores unchanged: trimmed, in lower case, not empty and not
      \<open>__proto__\<close>\<close>
  "normalKey k = (k \<noteq> [] \<and> toLowerCase (trim k) = k \<and> k \<noteq> ''__proto__'')"

definition indexMatches :: "sheet \<Rightarrow> indexSheet \<Rightarrow> bool" where
  \<comment> \<open>the index lists the addresses of the data rows in their order, each with the number
      of its row, and no address twice\<close>
  "indexMatches sh ix =
     (map fst ix = map senderEmail sh \<and> map snd ix = map (\<lambda>i. i + 2) [0 ..< length sh]
      \<and> distinct (map fst ix) \<and> list_all normalKey (map fst ix))"

definition readIndexStep :: "(string \<rightharpoonup> nat) \<Rightarrow> string \<times> nat \<Rightarrow> (string \<rightharpoonup> nat)" where
  \<comment> \<open>the body of the loop of \<open>readIndex\<close>\<close>
  "readIndexStep m v =
     (let emailLc = toLowerCase (trim (fst v)); r = snd v
      in if emailLc \<noteq> [] \<and> r > 1 \<and> emailLc \<noteq> ''__proto__''
         then m(emailLc \<mapsto> r) else m)"

definition wellKeyed :: "runMap \<Rightarrow> bool" where
  \<comment> \<open>a run map as \<open>processMessages\<close> builds it from the empty one\<close>
  "wellKeyed rm = (keysFolded rm \<and> distinct (map fst rm) \<and> list_all normalKey (map fst rm))"

definition keyCount :: "string \<Rightarrow> sheet \<Rightarrow> nat" where
  \<comment> \<open>the sum of the counts of the rows of the address \<open>k\<close>\<close>
  "keyCount k sh = sum_list (map (\<lambda>r. if senderEmail r = k then rowCount r else 0) sh)"

definition bucketCount :: "string \<Rightarrow> runMap \<Rightarrow> nat" where
  \<comment> \<open>the count of the bucket of the key \<open>k\<close>\<close>
  "bucketCount k rm = sum_list (map (\<lambda>kb. if fst kb = k then count (snd kb) else 0) rm)"

definition occurrences :: "string \<Rightarrow> message list \<Rightarrow> nat" where
  \<comment> \<open>the number of counted messages of the key \<open>k\<close>\<close>
  "occurrences k ms = length (filter (\<lambda>m. counted m \<and> keyOf m = k) ms)"

definition mergeBeforeSort :: "sheet \<times> indexSheet \<Rightarrow> message list \<Rightarrow> sheet \<times> indexSheet" where
  \<comment> \<open>one checkpoint's merge of the messages \<open>ms\<close>, up to the re-sort\<close>
  "mergeBeforeSort st ms = mergeWrites (fst st) (snd st) (processMessages ms [])"

definition accounted :: "thread list \<Rightarrow> nat \<Rightarrow> nat \<Rightarrow> scanState \<Rightarrow> bool" where
  \<comment> \<open>for a cycle that started at the cursor \<open>c0\<close> with \<open>T0\<close> emails in the store: the store
      and the run map together hold the counted messages of the threads before the
      cursor, the store alone those before the saved cursor, and every checkpoint logged
      the totals that belong to its cursor\<close>
  "accounted inbox c0 T0 s =
     (c0 \<le> cursor s
      \<and> totalEmails (getSheetStats (sheet s)) + runMapTotal (runMap s)
          = T0 + countedIn inbox c0 (cursor s)
      \<and> totalEmails (getSheetStats (sheet s))
          = T0 + countedIn inbox c0 (propOr0 (CURSOR (props s)))
      \<and> list_all (\<lambda>e. totalEmails (snd e) = T0 + countedIn inbox c0 (fst e)) (consoleLog s))"

function loopStates :: "clock \<Rightarrow> int \<Rightarrow> thread list \<Rightarrow> scanState \<Rightarrow> scanState list" where
  \<comment> \<open>the states in which \<open>while (true)\<close> is entered, in their order: the state \<open>s\<close> and the
      state after each iteration of \<open>mainLoop\<close>, up to the one in which the loop is left\<close>
  "loopStates clk runStart inbox s =
     (if clk (ticks s) - runStart > RUNTIME_HARD_LIMIT_MS then [s]
      else if search inbox (cursor s) PAGE_SIZE_THREADS = [] then [s]
      else s # loopStates clk runStart inbox
                 (loopBody clk runStart (search inbox (cursor s) PAGE_SIZE_THREADS)
                    (s\<lparr>ticks := Suc (ticks s)\<rparr>)))"
  by pat_completeness auto
termination
  by (relation "measure (\<lambda>(clk, runStart, inbox, s). length inbox - cursor s)")
     (auto simp: loopBody_def doCheckpoint_def search_def Let_def)

declare loopStates.simps [simp del]

definition finalCheckpoint :: "scanState \<Rightarrow> scanState" where
  \<comment> \<open>\<open>// Final checkpoint for any remaining data\<close>, the first statement of \<open>finish\<close>\<close>
  "finalCheckpoint s1 = (if runMap s1 \<noteq> [] then doCheckpoint s1 else s1)"

definition cycleStates ::
  "clock \<Rightarrow> thread list \<Rightarrow> sheet \<Rightarrow> indexSheet \<Rightarrow> props \<Rightarrow> scanState list" where
  \<comment> \<open>the states of a cycle of \<open>buildSenderReportBatch\<close> between its checkpoints: those of
      the main loop and the one after the final checkpoint; a cycle that finds no thread
      at its cursor has its start state only\<close>
  "cycleStates clk inbox sh ix pr =
     (let s0 = startState clk sh ix pr
      in if search inbox (cursor s0) 1 = [] then [s0]
         else loopStates clk (clk 0) inbox s0
              @ [finalCheckpoint (mainLoop clk (clk 0) inbox s0)])"

definition savedCursor :: "scanState \<Rightarrow> nat" where
  \<comment> \<open>the cursor as the next cycle reads it:
      \<open>parseInt(props.getProperty(KEYS.CURSOR) || '0', 10)\<close>\<close>
  "savedCursor s = propOr0 (CURSOR (props s))"

definition occurrencesIn :: "string \<Rightarrow> thread list \<Rightarrow> nat \<Rightarrow> nat \<Rightarrow> nat" where
  \<comment> \<open>the number of counted messages of the key \<open>k\<close> in the threads at the offsets
      \<open>a \<le> i < b\<close>\<close>
  "occurrencesIn k inbox a b = occurrences k (concat (take (b - a) (drop a inbox)))"

definition resumable :: "nat \<Rightarrow> scanState \<Rightarrow> bool" where
  \<comment> \<open>the resumption state is initialized and its cursor lies between the start cursor
      \<open>c0\<close> and the cursor of the run\<close>
  "resumable c0 s = (INITIALIZED (props s) \<and> c0 \<le> savedCursor s \<and> savedCursor s \<le> cursor s)"

definition accountedKey :: "string \<Rightarrow> thread list \<Rightarrow> nat \<Rightarrow> nat \<Rightarrow> scanState \<Rightarrow> bool" where
  \<comment> \<open>\<open>accounted\<close> for the counts of one address \<open>k\<close>, of which the store held \<open>K0\<close> at the
      start of the cycle\<close>
  "accountedKey k inbox c0 K0 s =
     (wellKeyed (runMap s)
      \<and> keyCount k (sheet s) + bucketCount k (runMap s)
          = K0 + occurrencesIn k inbox c0 (cursor s)
      \<and> keyCount k (sheet s) = K0 + occurrencesIn k inbox c0 (savedCursor s))"

definition checkpointOnMatch :: "scanState \<Rightarrow> scanState \<Rightarrow> bool" where
  \<comment> \<open>of two consecutive states of a cycle: if a checkpoint was made between them, the
      index matched the sheet when it began\<close>
  "checkpointOnMatch s n =
     (checkpointCount n \<noteq> checkpointCount s \<longrightarrow> indexMatches (sheet s) (indexSheet s))"

text \<open>Sample data: messages in the inbox, an unset resumption state, clocks.\<close>

definition sampleMessage :: "string \<Rightarrow> string \<Rightarrow> string \<Rightarrow> message" where
  "sampleMessage f subj d =
     \<lparr>isInInbox = True, getFrom = f, getSubject = subj, dateIso = d, listUnsubscribe = []\<rparr>"

definition noProps :: props where
  "noProps = \<lparr>CURSOR = None, TOTAL_PROCESSED = None, INITIALIZED = False\<rparr>"

definition fromA :: message where
  "fromA = sampleMessage ''Ann <Ann@X.com>'' ''hello'' ''2024-01-01T10:00:00+00:00''"

definition fromB :: message where
  "fromB = sampleMessage ''bob@y.org'' ''offer'' ''2024-02-01T10:00:00+00:00''"

definition stillClock :: clock where
  "stillClock = (\<lambda>k. 0)"

definition pausingClock :: clock where
  \<comment> \<open>more than a minute passes while the first page is processed\<close>
  "pausingClock = (\<lambda>k. if k \<ge> 53 then 70000 else 0)"

definition archived :: message where
  \<comment> \<open>a message of a thread of the inbox that is itself no longer in the inbox\<close>
  "archived = fromB\<lparr>isInInbox := False\<rparr>"

definition twoSenders :: "thread list" where
  \<comment> \<open>51 threads: two messages in the inbox of each of two senders, and 48 threads whose
      message is archived\<close>
  "twoSenders = [[fromA], [fromB, fromB]] @ replicate 48 [archived] @ [[fromA]]"

definition threeFromAnn :: "message list" where
  "threeFromAnn =
     [sampleMessage ''Ann <Ann@X.com>'' [] ''2024-01-01T10:00:00+00:00'',
      (sampleMessage ''ann@x.com'' ''A'' ''2024-03-01T10:00:00+00:00'')
         \<lparr>listUnsubscribe := ''<mailto:off@x.com>, <https://x.com/off>''\<rparr>,
      (sampleMessage ''<ANN@X.COM>'' ''B'' ''2024-02-01T10:00:00+00:00'')
         \<lparr>listUnsubscribe := ''<https://x.com/other>''\<rparr>]"

definition noAddress :: message where
  "noAddress = sampleMessage ''Mail Delivery Subsystem'' ''Returned mail''
                 ''2024-01-02T08:00:00+00:00''"

definition steadySenders :: "thread list" where
  \<comment> \<open>101 threads: the first page holds two messages of Ann and one of Bob, the second
      one more of Ann, and one thread of Bob is left; the other threads hold an archived
      message\<close>
  "steadySenders = [[fromA, fromA], [fromB]] @ replicate 48 [archived] @ [[fromA]]
                     @ replicate 49 [archived] @ [[fromB]]"

definition twoPageClock :: clock where
  \<comment> \<open>more than a minute passes while the first page is processed, and the hard limit is
      passed after the last thread of the second page\<close>
  "twoPageClock = (\<lambda>k. if k \<ge> 107 then 400000 else if k \<ge> 53 then 70000 else 0)"

definition interruptingClock :: clock where
  \<comment> \<open>the hard limit is passed after the first thread of the first page\<close>
  "interruptingClock = (\<lambda>k. if k \<ge> 4 then 400000 else 0)"

definition firstScan :: "scanState \<times> outcome" where
  \<comment> \<open>a complete scan of an inbox of one thread, from an empty store\<close>
  "firstScan = buildSenderReportBatch stillClock [[fromA]] [] [] noProps"

definition annBucket :: bucket where
  \<comment> \<open>the bucket of two messages of one sender\<close>
  "annBucket = snd (hd (processMessages [fromA, fromA] []))"

definition actedRow :: row where
  \<comment> \<open>a stored row of that sender on which the action executor has worked\<close>
  "actedRow =
     (buildRowFromBucket (snd (hd (processMessages [fromA] []))))
        \<lparr>act := True, notesStatus := ''Unsub URL OK (200)'',
         processed := ''2024-01-05T09:00:00''\<rparr>"

section \<open>The merge of one bucket into its stored row\<close>

lemma readIndex_fold_gt1:
  "(\<And>k r. m k = Some r \<Longrightarrow> 1 < r) \<Longrightarrow>
   foldl (\<lambda>m (k, r).
              (let emailLc = toLowerCase (trim k)
               in if emailLc \<noteq> [] \<and> r > 1 \<and> emailLc \<noteq> ''__proto__''
                  then m(emailLc \<mapsto> r) else m)) m ix k = Some r \<Longrightarrow> 1 < r"
proof (induction ix arbitrary: m)
  case Nil
  then show ?case by simp
next
  case (Cons a ix)
  obtain k0 r0 where a: "a = (k0, r0)" by (cases a)
  show ?case
  proof (rule Cons.IH[OF _ Cons.prems(2)[unfolded a foldl_Cons]])
    fix k' r'
    assume "(case (k0, r0) of (k, r) \<Rightarrow>
               let emailLc = toLowerCase (trim k)
               in if emailLc \<noteq> [] \<and> r > 1 \<and> emailLc \<noteq> ''__proto__''
                  then m(emailLc \<mapsto> r) else m) k' = Some r'"
    then show "1 < r'"
      using Cons.prems(1) by (auto simp: Let_def split: if_splits)
  qed
qed

lemma readIndex_gt1: "readIndex ix k = Some r \<Longrightarrow> 1 < r"
  unfolding readIndex_def by (rule readIndex_fold_gt1[of Map.empty]) auto

lemma mergeRowVals_lastSeen:
  "lastSeenIso (mergeRowVals R B) = max (lastSeenIso R) (orEmpty (lastSeen B))"
  by (cases "lastSeen B") (auto simp: mergeRowVals_def Let_def truthy_def orEmpty_def max_def)

lemma objectEntries_single: "objectEntries [(k, B)] = [(k, B)]"
  by (simp add: objectEntries_def)

lemma merge_single_existing:
  assumes "readIndex ix k = Some r" "r - 2 < length sh"
  shows "mergeRunMapUsingIndex sh ix [(k, B)] =
           (sortByCountDesc (sh[r - 2 := mergeRowVals (sh ! (r - 2)) B]), ix)"
proof -
  have r: "2 \<le> r" using readIndex_gt1[OF assms(1)] by simp
  have "setRow sh r v = sh[r - 2 := v]" for v
    using assms(2) r by (simp add: setRow_def)
  moreover have "getRow sh r = sh ! (r - 2)"
    using assms(2) r by (simp add: getRow_def)
  ultimately show ?thesis
    using assms(1) r
    by (simp add: mergeRunMapUsingIndex_def mergeWrites_def objectEntries_single
        updateExisting_def Let_def)
qed

text \<open>
  Claim C4. The row \<open>mergeRunMapUsingIndex\<close> writes for an existing record \<open>R\<close> and a bucket
  \<open>B\<close>: the count is the sum of the two counts; the subject, the unsubscribe URL and the
  unsubscribe mailto are those of \<open>R\<close> unless empty, else those of \<open>B\<close>; the last-seen
  timestamp is the greater of the two as strings, the empty string being the least. A
  merge of one bucket whose key the index locates at a row of the sheet writes exactly
  this row there.
\<close>

theorem merge_field_policy:
  "rowCount (mergeRowVals R B) = rowCount R + count B
   \<and> exampleSubject (mergeRowVals R B) =
       (if exampleSubject R \<noteq> [] then exampleSubject R else orEmpty (sampleSubject B))
   \<and> lastSeenIso (mergeRowVals R B) = max (lastSeenIso R) (orEmpty (lastSeen B))
   \<and> unsubscribeUrl (mergeRowVals R B) =
       (if unsubscribeUrl R \<noteq> [] then unsubscribeUrl R else orEmpty (unsubUrl B))
   \<and> unsubscribeMailto (mergeRowVals R B) =
       (if unsubscribeMailto R \<noteq> [] then unsubscribeMailto R else orEmpty (unsubMailto B))
   \<and> (readIndex ix k = Some r \<and> r - 2 < length sh \<longrightarrow>
        mergeRunMapUsingIndex sh ix [(k, B)] =
          (sortByCountDesc (sh[r - 2 := mergeRowVals (sh ! (r - 2)) B]), ix))"
  using mergeRowVals_lastSeen[of R B] merge_single_existing[of ix k r sh B]
  by (simp add: mergeRowVals_def Let_def)

theorem merge_field_policy_witness:
  "readIndex [(''ann@x.com'', 2)] ''ann@x.com'' = Some 2
   \<and> (2::nat) - 2 < length [actedRow]
   \<and> mergeRunMapUsingIndex [actedRow] [(''ann@x.com'', 2)] [(''ann@x.com'', annBucket)] =
       ([mergeRowVals actedRow annBucket], [(''ann@x.com'', 2)])
   \<and> rowCount (mergeRowVals actedRow annBucket) = 3"
proof -
  have h: "readIndex [(''ann@x.com'', 2)] ''ann@x.com'' = Some 2
           \<and> (2::nat) - 2 < length [actedRow]"
    by code_simp
  have c: "rowCount actedRow + count annBucket = 3"
    by code_simp
  from merge_field_policy[of actedRow annBucket "[(''ann@x.com'', 2)]" "''ann@x.com''" 2
      "[actedRow]"] h c
  show ?thesis by (simp add: sortByCountDesc_def)
qed

section \<open>The fields of the action executor\<close>

lemma setRow_length: "length sh \<le> length (setRow sh r v)"
  by (simp add: setRow_def)

lemma updateExisting_length: "length sh \<le> length (updateExisting sh u)"
  by (cases u) (simp add: updateExisting_def setRow_length)

lemma mergeRowVals_frame:
  "act (mergeRowVals R B) = act R" "notesStatus (mergeRowVals R B) = notesStatus R"
  "processed (mergeRowVals R B) = processed R"
  by (simp_all add: mergeRowVals_def Let_def)

lemma updateExisting_frame:
  assumes "i < length sh"
  shows "act (updateExisting sh u ! i) = act (sh ! i)
       \<and> notesStatus (updateExisting sh u ! i) = notesStatus (sh ! i)
       \<and> processed (updateExisting sh u ! i) = processed (sh ! i)"
proof -
  obtain k r b where u: "u = (k, r, b)" by (cases u)
  show ?thesis
  proof (cases "r < 2")
    case True
    then show ?thesis by (simp add: u updateExisting_def)
  next
    case False
    show ?thesis
    proof (cases "i = r - 2")
      case True
      with assms False have "getRow sh r = sh ! i" by (simp add: getRow_def)
      moreover have "setRow sh r v ! i = v" for v
        using assms True by (simp add: setRow_def)
      ultimately show ?thesis
        using False by (simp add: u updateExisting_def mergeRowVals_frame)
    next
      case ne: False
      have "setRow sh r v ! i = sh ! i" for v
        using assms ne by (simp add: setRow_def nth_append)
      then show ?thesis using False by (simp add: u updateExisting_def)
    qed
  qed
qed

lemma foldl_updateExisting_frame:
  "i < length sh \<Longrightarrow>
     i < length (foldl updateExisting sh us)
     \<and> act (foldl updateExisting sh us ! i) = act (sh ! i)
     \<and> notesStatus (foldl updateExisting sh us ! i) = notesStatus (sh ! i)
     \<and> processed (foldl updateExisting sh us ! i) = processed (sh ! i)"
proof (induction us arbitrary: sh)
  case Nil
  then show ?case by simp
next
  case (Cons u us)
  have "i < length (updateExisting sh u)"
    using Cons.prems updateExisting_length[of sh u] by simp
  from Cons.IH[OF this] updateExisting_frame[OF Cons.prems, of u]
  show ?case by simp
qed

text \<open>
  Claim C6. The row a merge computes from a stored row \<open>R\<close> and a bucket \<open>B\<close> has the Act
  flag, the notes and the processed timestamp of \<open>R\<close>; and the writes of a merge leave
  these three fields of every row of the sheet as they were, whatever the index and the
  buckets are (the re-sort that follows moves whole rows).
\<close>

theorem merge_keeps_action_fields:
  "act (mergeRowVals R B) = act R
   \<and> notesStatus (mergeRowVals R B) = notesStatus R
   \<and> processed (mergeRowVals R B) = processed R
   \<and> (\<forall>i < length sh.
        act (fst (mergeWrites sh ix rm) ! i) = act (sh ! i)
        \<and> notesStatus (fst (mergeWrites sh ix rm) ! i) = notesStatus (sh ! i)
        \<and> processed (fst (mergeWrites sh ix rm) ! i) = processed (sh ! i))"
proof -
  have "act (fst (mergeWrites sh ix rm) ! i) = act (sh ! i)
        \<and> notesStatus (fst (mergeWrites sh ix rm) ! i) = notesStatus (sh ! i)
        \<and> processed (fst (mergeWrites sh ix rm) ! i) = processed (sh ! i)"
    if "i < length sh" for i
    using foldl_updateExisting_frame[of i
        "sh @ map snd (fst (partitionKeys (readIndex ix) (objectEntries rm)))"
        "snd (partitionKeys (readIndex ix) (objectEntries rm))"] that
    by (simp add: mergeWrites_def Let_def nth_append)
  then show ?thesis by (simp add: mergeRowVals_frame)
qed

theorem merge_keeps_action_fields_witness:
  "(0::nat) < length [actedRow]
   \<and> act (fst (mergeWrites [actedRow] [(''ann@x.com'', 2)]
                 (processMessages [fromA, fromA] [])) ! 0)
   \<and> notesStatus (fst (mergeWrites [actedRow] [(''ann@x.com'', 2)]
                         (processMessages [fromA, fromA] [])) ! 0) = ''Unsub URL OK (200)''
   \<and> processed (fst (mergeWrites [actedRow] [(''ann@x.com'', 2)]
                       (processMessages [fromA, fromA] [])) ! 0) = ''2024-01-05T09:00:00''
   \<and> rowCount (fst (mergeWrites [actedRow] [(''ann@x.com'', 2)]
                      (processMessages [fromA, fromA] [])) ! 0) = 3"
proof -
  have c: "rowCount (fst (mergeWrites [actedRow] [(''ann@x.com'', 2)]
                           (processMessages [fromA, fromA] [])) ! 0) = 3"
    by code_simp
  have a: "act actedRow" "notesStatus actedRow = ''Unsub URL OK (200)''"
    "processed actedRow = ''2024-01-05T09:00:00''"
    by (simp_all add: actedRow_def)
  from merge_keeps_action_fields[of actedRow annBucket "[actedRow]" "[(''ann@x.com'', 2)]"
      "processMessages [fromA, fromA] []"]
  show ?thesis using c a by simp
qed

section \<open>The bucket of one key\<close>

lemma truthy_simps: "truthy None = False" "truthy (Some s) = (s \<noteq> [])"
  by (simp_all add: truthy_def)

lemma absorb_lastSeen:
  "lastSeen (absorb b subj d u) = Some (max (orEmpty (lastSeen b)) d)"
proof (cases "lastSeen b")
  case None
  then show ?thesis by (simp add: absorb_def truthy_def orEmpty_def max_def)
next
  case (Some x)
  show ?thesis
  proof (cases "x = []")
    case True
    with Some show ?thesis by (simp add: absorb_def truthy_def orEmpty_def max_def)
  next
    case False
    show ?thesis
    proof (cases "x < d")
      case True
      then have "x \<le> d" by simp
      with True Some False show ?thesis
        by (simp add: absorb_def truthy_def orEmpty_def max_def)
    next
      case nl: False
      then have "max x d = x" by (simp add: max_def not_less)
      with nl Some False show ?thesis
        by (simp add: absorb_def truthy_def orEmpty_def)
    qed
  qed
qed

lemma absorbMessage_fields:
  "count (absorbMessage b m) = count b + 1"
  "sampleSubject (absorbMessage b m) =
     (if \<not> truthy (sampleSubject b) \<and> getSubject m \<noteq> [] then Some (getSubject m)
      else sampleSubject b)"
  "lastSeen (absorbMessage b m) = Some (max (orEmpty (lastSeen b)) (dateIso m))"
  "unsubUrl (absorbMessage b m) =
     (if truthy (headerUrl m) \<and> \<not> truthy (unsubUrl b) then headerUrl m else unsubUrl b)"
  "unsubMailto (absorbMessage b m) =
     (if truthy (headerMailto m) \<and> \<not> truthy (unsubMailto b) then headerMailto m
      else unsubMailto b)"
      apply (simp add: absorbMessage_def absorb_def)
     apply (simp add: absorbMessage_def absorb_def)
    apply (simp add: absorbMessage_def absorb_lastSeen)
   apply (simp add: absorbMessage_def absorb_def headerUrl_def truthy_def split: option.splits)
  apply (simp add: absorbMessage_def absorb_def headerMailto_def truthy_def split: option.splits)
  done

lemma fold_count: "count (foldl absorbMessage b ms) = count b + length ms"
  by (induction ms arbitrary: b) (simp_all add: absorbMessage_fields)

lemma fold_sampleSubject:
  "sampleSubject (foldl absorbMessage b ms) =
     (if truthy (sampleSubject b) then sampleSubject b
      else (case find (\<lambda>s. s \<noteq> []) (map getSubject ms) of
              None \<Rightarrow> sampleSubject b | Some s \<Rightarrow> Some s))"
proof (induction ms arbitrary: b)
  case Nil
  then show ?case by simp
next
  case (Cons a ms)
  show ?case
    unfolding foldl_Cons Cons.IH absorbMessage_fields
    by (cases "truthy (sampleSubject b)"; cases "getSubject a = []")
       (simp_all add: truthy_simps)
qed

lemma fold_lastSeen:
  "lastSeen (foldl absorbMessage b (m # ms)) =
     Some (foldl max (orEmpty (lastSeen b)) (map dateIso (m # ms)))"
  by (induction ms arbitrary: b m)
     (simp_all add: absorbMessage_fields orEmpty_def)

lemma fold_unsubUrl:
  "unsubUrl (foldl absorbMessage b ms) =
     (if truthy (unsubUrl b) then unsubUrl b
      else (case find truthy (map headerUrl ms) of None \<Rightarrow> unsubUrl b | Some v \<Rightarrow> v))"
proof (induction ms arbitrary: b)
  case Nil
  then show ?case by simp
next
  case (Cons a ms)
  show ?case
    unfolding foldl_Cons Cons.IH absorbMessage_fields
    by (cases "truthy (unsubUrl b)"; cases "truthy (headerUrl a)") simp_all
qed

lemma fold_unsubMailto:
  "unsubMailto (foldl absorbMessage b ms) =
     (if truthy (unsubMailto b) then unsubMailto b
      else (case find truthy (map headerMailto ms) of None \<Rightarrow> unsubMailto b | Some v \<Rightarrow> v))"
proof (induction ms arbitrary: b)
  case Nil
  then show ?case by simp
next
  case (Cons a ms)
  show ?case
    unfolding foldl_Cons Cons.IH absorbMessage_fields
    by (cases "truthy (unsubMailto b)"; cases "truthy (headerMailto a)") simp_all
qed

lemma processMessage_counted:
  assumes "counted m" "keyOf m = k"
  shows "map_of (processMessage m rm) k =
           Some (absorbMessage (case map_of rm k of
                                  None \<Rightarrow> newBucket (fst (parseFrom (getFrom m)))
                                            (snd (parseFrom (getFrom m)))
                                | Some b \<Rightarrow> b) m)"
proof -
  obtain e n where p: "parseFrom (getFrom m) = (e, n)" by (cases "parseFrom (getFrom m)")
  from assms p have c: "isInInbox m" "e \<noteq> []" "k \<notin> set objectPrototypeKeys"
    "toLowerCase e = k"
    by (auto simp: counted_def keyOf_def)
  have fs: "fst (parseFrom (getFrom m)) = e" "snd (parseFrom (getFrom m)) = n"
    by (simp_all add: p)
  show ?thesis
    unfolding fs
    by (simp add: processMessage_def p c Let_def absorbMessage_def update_conv')
qed

lemma processMessages_one_key:
  "\<forall>m \<in> set ms. counted m \<and> keyOf m = k \<Longrightarrow> map_of rm k = Some b \<Longrightarrow>
   map_of (processMessages ms rm) k = Some (foldl absorbMessage b ms)"
proof (induction ms arbitrary: rm b)
  case Nil
  then show ?case by simp
next
  case (Cons m ms)
  have "map_of (processMessage m rm) k = Some (absorbMessage b m)"
    using processMessage_counted[of m k rm] Cons.prems by simp
  from Cons.IH[OF _ this] Cons.prems(1) show ?case by simp
qed

text \<open>
  Claim C7. When the messages \<open>m0 # ms\<close> are counted and all have the key \<open>k\<close>, and the run
  map has no bucket for \<open>k\<close> yet, \<open>processMessages\<close> leaves a bucket for \<open>k\<close> whose count is
  the number of messages, whose sample subject is the first non-empty subject, whose
  last-seen timestamp is the greatest timestamp as a string, and whose unsubscribe URL and
  mailto are the first ones any message carried: a value once set is never replaced. The
  witness is the example of the specification: an empty subject, then \<open>A\<close>, then \<open>B\<close> give
  \<open>A\<close>, and the timestamps of January, March and February give the one of March.
\<close>

theorem bucket_field_policy:
  assumes "\<forall>m \<in> set (m0 # ms). counted m \<and> keyOf m = k" and "map_of rm k = None"
  shows "\<exists>b. map_of (processMessages (m0 # ms) rm) k = Some b
           \<and> count b = length (m0 # ms)
           \<and> sampleSubject b = find (\<lambda>s. s \<noteq> []) (map getSubject (m0 # ms))
           \<and> lastSeen b = Some (foldl max [] (map dateIso (m0 # ms)))
           \<and> unsubUrl b = firstTruthy (map headerUrl (m0 # ms))
           \<and> unsubMailto b = firstTruthy (map headerMailto (m0 # ms))"
proof -
  define b0 where "b0 = newBucket (fst (parseFrom (getFrom m0))) (snd (parseFrom (getFrom m0)))"
  have b0: "count b0 = 0" "sampleSubject b0 = None" "lastSeen b0 = None" "unsubUrl b0 = None"
    "unsubMailto b0 = None"
    by (simp_all add: b0_def newBucket_def)
  have first: "map_of (processMessage m0 rm) k = Some (absorbMessage b0 m0)"
    using processMessage_counted[of m0 k rm] assms by (simp add: b0_def)
  have rest: "\<forall>m \<in> set ms. counted m \<and> keyOf m = k" using assms(1) by simp
  have 1: "map_of (processMessages (m0 # ms) rm) k = Some (foldl absorbMessage b0 (m0 # ms))"
    using processMessages_one_key[OF rest first] by simp
  have 2: "count (foldl absorbMessage b0 (m0 # ms)) = length (m0 # ms)"
    unfolding fold_count b0 by simp
  have 3: "sampleSubject (foldl absorbMessage b0 (m0 # ms))
                   = find (\<lambda>s. s \<noteq> []) (map getSubject (m0 # ms))"
    unfolding fold_sampleSubject b0 by (simp add: truthy_simps split: option.splits)
  have 4: "lastSeen (foldl absorbMessage b0 (m0 # ms))
                   = Some (foldl max [] (map dateIso (m0 # ms)))"
    unfolding fold_lastSeen b0 by (simp add: orEmpty_def)
  have 5: "unsubUrl (foldl absorbMessage b0 (m0 # ms))
                   = firstTruthy (map headerUrl (m0 # ms))"
    unfolding fold_unsubUrl b0 firstTruthy_def by (simp add: truthy_simps split: option.splits)
  have 6: "unsubMailto (foldl absorbMessage b0 (m0 # ms))
                   = firstTruthy (map headerMailto (m0 # ms))"
    unfolding fold_unsubMailto b0 firstTruthy_def by (simp add: truthy_simps split: option.splits)
  show ?thesis
    by (rule exI[of _ "foldl absorbMessage b0 (m0 # ms)"]) (simp only: 1 2 3 4 5 6 simp_thms)
qed

theorem bucket_field_policy_witness:
  "list_all (\<lambda>m. counted m \<and> keyOf m = ''ann@x.com'') threeFromAnn
   \<and> map_of ([]::runMap) ''ann@x.com'' = None
   \<and> map getSubject threeFromAnn = [[], ''A'', ''B'']
   \<and> (\<exists>b. map_of (processMessages threeFromAnn []) ''ann@x.com'' = Some b
          \<and> count b = 3
          \<and> sampleSubject b = Some ''A''
          \<and> lastSeen b = Some ''2024-03-01T10:00:00+00:00''
          \<and> unsubUrl b = Some ''https://x.com/off''
          \<and> unsubMailto b = Some ''mailto:off@x.com'')"
proof -
  have la: "list_all (\<lambda>m. counted m \<and> keyOf m = ''ann@x.com'') threeFromAnn"
    by code_simp
  then have h: "\<forall>m \<in> set threeFromAnn. counted m \<and> keyOf m = ''ann@x.com''"
    by (simp add: list_all_iff)
  have l: "hd threeFromAnn # tl threeFromAnn = threeFromAnn"
    by (simp add: threeFromAnn_def)
  have s: "map getSubject threeFromAnn = [[], ''A'', ''B'']"
    by (simp add: threeFromAnn_def sampleMessage_def)
  have v1: "find (\<lambda>s. s \<noteq> []) (map getSubject threeFromAnn) = Some ''A''"
    by code_simp
  have v2: "foldl max [] (map dateIso threeFromAnn) = ''2024-03-01T10:00:00+00:00''"
    by code_simp
  have v3: "firstTruthy (map headerUrl threeFromAnn) = Some ''https://x.com/off''"
    by code_simp
  have v4: "firstTruthy (map headerMailto threeFromAnn) = Some ''mailto:off@x.com''"
    by code_simp
  have v5: "length threeFromAnn = 3"
    by (simp add: threeFromAnn_def)
  have "\<exists>b. map_of (processMessages threeFromAnn []) ''ann@x.com'' = Some b
          \<and> count b = 3
          \<and> sampleSubject b = Some ''A''
          \<and> lastSeen b = Some ''2024-03-01T10:00:00+00:00''
          \<and> unsubUrl b = Some ''https://x.com/off''
          \<and> unsubMailto b = Some ''mailto:off@x.com''"
    using bucket_field_policy[of "hd threeFromAnn" "tl threeFromAnn" "''ann@x.com''" "[]"] h
    unfolding l v1 v2 v3 v4 v5 by simp
  with la s show ?thesis by simp
qed

section \<open>Records without an address\<close>

lemma processMessages_append:
  "processMessages (xs @ ys) rm = processMessages ys (processMessages xs rm)"
  by (induction xs arbitrary: rm) simp_all

lemma processThreads_cong:
  "map processMessages ths = map processMessages ths' \<Longrightarrow>
   processThreads clk rs ths rm t = processThreads clk rs ths' rm t"
proof (induction ths arbitrary: ths' rm t)
  case Nil
  then show ?case by simp
next
  case (Cons a ths)
  then obtain a' ths'' where t': "ths' = a' # ths''" by (cases ths') auto
  from Cons.prems t' have eq: "processMessages a = processMessages a'"
    "map processMessages ths = map processMessages ths''" by simp_all
  have "(if a = [] then rm else processMessages a rm)
        = (if a' = [] then rm else processMessages a' rm)"
    using eq(1) by (metis processMessages.simps(1))
  then show ?case using Cons.IH[OF eq(2)] by (simp add: t')
qed

lemma search_cong:
  "map processMessages inbox = map processMessages inbox' \<Longrightarrow>
   map processMessages (search inbox c n) = map processMessages (search inbox' c n)"
  by (simp add: search_def take_map[symmetric] drop_map[symmetric])

lemma map_eq_Nil_both: "map f xs = map g ys \<Longrightarrow> (xs = []) = (ys = [])"
  by (cases xs; cases ys) auto

lemma loopBody_cong:
  assumes "map processMessages ths = map processMessages ths'"
  shows "loopBody clk rs ths s = loopBody clk rs ths' s"
proof -
  have "length ths = length ths'" using assms by (metis length_map)
  then show ?thesis
    using processThreads_cong[OF assms] by (simp add: loopBody_def)
qed

lemma mainLoop_cong:
  "map processMessages inbox = map processMessages inbox' \<Longrightarrow>
   mainLoop clk rs inbox s = mainLoop clk rs inbox' s"
proof (induction clk rs inbox s rule: mainLoop.induct)
  case (1 clk rs inbox s)
  note sc = search_cong[OF "1.prems", of "cursor s" PAGE_SIZE_THREADS]
  show ?case
  proof (cases "clk (ticks s) - rs > RUNTIME_HARD_LIMIT_MS")
    case True
    then show ?thesis
      by (simp add: mainLoop.simps[of clk rs inbox s] mainLoop.simps[of clk rs inbox' s])
  next
    case False
    show ?thesis
    proof (cases "search inbox (cursor s) PAGE_SIZE_THREADS = []")
      case True
      with map_eq_Nil_both[OF sc] have "search inbox' (cursor s) PAGE_SIZE_THREADS = []"
        by simp
      with True False show ?thesis
        by (simp add: mainLoop.simps[of clk rs inbox s] mainLoop.simps[of clk rs inbox' s])
    next
      case ne: False
      with map_eq_Nil_both[OF sc] have ne': "search inbox' (cursor s) PAGE_SIZE_THREADS \<noteq> []"
        by simp
      have "mainLoop clk rs inbox s = mainLoop clk rs inbox
             (loopBody clk rs (search inbox (cursor s) PAGE_SIZE_THREADS)
                (s\<lparr>ticks := Suc (ticks s)\<rparr>))"
        using False ne by (simp add: mainLoop.simps[of clk rs inbox s])
      also have "\<dots> = mainLoop clk rs inbox'
             (loopBody clk rs (search inbox (cursor s) PAGE_SIZE_THREADS)
                (s\<lparr>ticks := Suc (ticks s)\<rparr>))"
        using "1.IH"[OF False ne "1.prems"] .
      also have "\<dots> = mainLoop clk rs inbox'
             (loopBody clk rs (search inbox' (cursor s) PAGE_SIZE_THREADS)
                (s\<lparr>ticks := Suc (ticks s)\<rparr>))"
        using loopBody_cong[OF sc] by simp
      also have "\<dots> = mainLoop clk rs inbox' s"
        using False ne' by (simp add: mainLoop.simps[of clk rs inbox' s])
      finally show ?thesis .
    qed
  qed
qed

lemma build_cong:
  assumes "map processMessages inbox = map processMessages inbox'"
  shows "buildSenderReportBatch clk inbox sh ix pr = buildSenderReportBatch clk inbox' sh ix pr"
proof -
  have e: "(search inbox c n = []) = (search inbox' c n = [])" for c n
    using map_eq_Nil_both[OF search_cong[OF assms, of c n]] .
  have "finish inbox s = finish inbox' s" for s
    by (simp add: finish_def e Let_def)
  then show ?thesis
    using mainLoop_cong[OF assms] e by (simp add: buildSenderReportBatch_def Let_def)
qed

text \<open>
  Claim C9. A raw record whose originator field matches neither the angle-bracket pattern
  nor the bare address pattern yields no address: \<open>parseFrom\<close> returns the empty email, the
  message changes no run map at any position of its thread, and a whole cycle of the scan
  driver over an inbox that holds the message ends in the same store, index, resumption
  state, counters and outcome as over the inbox without it.
\<close>

theorem unparsable_record_skipped:
  assumes "angleMatch [] (getFrom m) = None" and "bareMatch [] (getFrom m) = None"
  shows "parseFrom (getFrom m) = ([], None)
       \<and> processMessages (xs @ m # ys) rm = processMessages (xs @ ys) rm
       \<and> buildSenderReportBatch clk (before @ (xs @ m # ys) # after) sh ix pr
           = buildSenderReportBatch clk (before @ (xs @ ys) # after) sh ix pr"
proof -
  have p: "parseFrom (getFrom m) = ([], None)"
    using assms by (simp add: parseFrom_def)
  then have skip: "processMessage m rm' = rm'" for rm'
    by (simp add: processMessage_def)
  have pm: "processMessages (xs @ m # ys) rm' = processMessages (xs @ ys) rm'" for rm'
    by (simp add: processMessages_append skip)
  then have "processMessages (xs @ m # ys) = processMessages (xs @ ys)" by (rule ext)
  then have "map processMessages (before @ (xs @ m # ys) # after)
             = map processMessages (before @ (xs @ ys) # after)" by simp
  from build_cong[OF this] p pm show ?thesis by simp
qed

theorem unparsable_record_skipped_witness:
  "angleMatch [] (getFrom noAddress) = None \<and> bareMatch [] (getFrom noAddress) = None
   \<and> processMessages ([fromA] @ noAddress # [fromB]) [] = processMessages ([fromA] @ [fromB]) []
   \<and> buildSenderReportBatch stillClock ([[fromB]] @ ([fromA] @ noAddress # [fromB]) # []) [] []
         noProps
       = buildSenderReportBatch stillClock ([[fromB]] @ ([fromA] @ [fromB]) # []) [] [] noProps"
proof -
  have h: "angleMatch [] (getFrom noAddress) = None" "bareMatch [] (getFrom noAddress) = None"
    by code_simp+
  from unparsable_record_skipped[OF h, of "[fromA]" "[fromB]" "[]" stillClock "[[fromB]]" "[]"
      "[]" "[]" noProps] h
  show ?thesis by simp
qed

section \<open>Rows created for new keys\<close>

lemma toLowerChar_idem: "toLowerChar (toLowerChar c) = toLowerChar c"
  by (simp add: toLowerChar_def isUpperCase_def Let_def)

lemma toLowerCase_idem: "toLowerCase (toLowerCase s) = toLowerCase s"
  by (simp add: toLowerCase_def toLowerChar_idem)

lemma parseFrom_lower: "toLowerCase (fst (parseFrom raw)) = fst (parseFrom raw)"
  by (auto simp: parseFrom_def Let_def toLowerCase_def toLowerChar_idem
      split: option.splits prod.splits)

lemma set_AList_update: "set (AList.update k v al) \<subseteq> insert (k, v) (set al)"
  by (induction al) auto

lemma absorb_email: "email (absorb b subj d u) = email b"
  by (simp add: absorb_def)

lemma processMessage_keysFolded:
  assumes "keysFolded rm"
  shows "keysFolded (processMessage m rm)"
proof -
  obtain e n where p: "parseFrom (getFrom m) = (e, n)" by (cases "parseFrom (getFrom m)")
  have e: "toLowerCase e = e" using parseFrom_lower[of "getFrom m"] p by simp
  have old: "email b0 = e" if "map_of rm e = Some b0" for b0
    using assms map_of_SomeD[OF that] by (auto simp: keysFolded_def)
  have "keysFolded (AList.update e v rm)" if "email v = e" for v
    using assms set_AList_update[of e v rm] that e by (auto simp: keysFolded_def)
  then show ?thesis
    using assms old
    by (auto simp: processMessage_def p e Let_def absorb_email newBucket_def
        split: option.splits)
qed

lemma processMessages_keysFolded:
  "keysFolded rm \<Longrightarrow> keysFolded (processMessages ms rm)"
  by (induction ms arbitrary: rm) (simp_all add: processMessage_keysFolded)

lemma set_objectEntries: "set (objectEntries rm) = set rm"
  by (auto simp: objectEntries_def)

lemma partitionKeys_new:
  "(k, r) \<in> set (fst (partitionKeys im es)) \<Longrightarrow>
   \<exists>b. (k, b) \<in> set es \<and> r = buildRowFromBucket b"
  by (induction im es rule: partitionKeys.induct) (auto split: option.splits)

text \<open>
  Claim C10, as the code has it. A message whose originator is \<open>Ann <Ann@X.com>\<close> is
  stored under the address \<open>ann@x.com\<close>, which is also its key in the index: \<open>parseFrom\<close>
  returns the address in lower case, so the original spelling never reaches the store.
\<close>

theorem stored_address_is_lowercased:
  "getFrom fromA = ''Ann <Ann@X.com>''
   \<and> map senderEmail (fst (mergeRunMapUsingIndex [] [] (processMessages [fromA] [])))
       = [''ann@x.com'']
   \<and> snd (mergeRunMapUsingIndex [] [] (processMessages [fromA] [])) = [(''ann@x.com'', 2)]
   \<and> ''ann@x.com'' \<noteq> ''Ann@X.com''"
  by code_simp

text \<open>
  Claim C10, amended. Every row a merge appends for a new key (the rows \<open>newRows\<close> of
  \<open>mergeRunMapUsingIndex\<close>, for the buckets of any messages) has the Act flag false, empty
  notes and an empty processed timestamp, and its address is the key of its index entry,
  which is in lower case.
\<close>

theorem new_rows_initialized:
  "\<forall>(k, r) \<in> set (fst (partitionKeys (readIndex ix) (objectEntries (processMessages ms [])))).
      act r = False \<and> notesStatus r = [] \<and> processed r = []
      \<and> senderEmail r = k \<and> toLowerCase k = k"
proof -
  have kf: "keysFolded (processMessages ms [])"
    by (rule processMessages_keysFolded) (simp add: keysFolded_def)
  show ?thesis
  proof (clarify)
    fix k r
    assume "(k, r) \<in> set (fst (partitionKeys (readIndex ix)
                                  (objectEntries (processMessages ms []))))"
    then obtain b where b: "(k, b) \<in> set (processMessages ms [])" "r = buildRowFromBucket b"
      using partitionKeys_new set_objectEntries by blast
    with kf have "email b = k" "toLowerCase k = k" by (auto simp: keysFolded_def)
    with b show "act r = False \<and> notesStatus r = [] \<and> processed r = []
      \<and> senderEmail r = k \<and> toLowerCase k = k"
      by (simp add: buildRowFromBucket_def)
  qed
qed

theorem new_rows_initialized_witness:
  "(''ann@x.com'', buildRowFromBucket annBucket)
     \<in> set (fst (partitionKeys (readIndex []) (objectEntries (processMessages [fromA, fromA] []))))
   \<and> act (buildRowFromBucket annBucket) = False
   \<and> notesStatus (buildRowFromBucket annBucket) = []
   \<and> processed (buildRowFromBucket annBucket) = []
   \<and> senderEmail (buildRowFromBucket annBucket) = ''ann@x.com''"
proof -
  have "fst (partitionKeys (readIndex []) (objectEntries (processMessages [fromA, fromA] [])))
        = [(''ann@x.com'', buildRowFromBucket annBucket)]"
    by code_simp
  then have m: "(''ann@x.com'', buildRowFromBucket annBucket)
     \<in> set (fst (partitionKeys (readIndex []) (objectEntries (processMessages [fromA, fromA] []))))"
    by simp
  from bspec[OF new_rows_initialized[of "[]" "[fromA, fromA]"] m] m
  show ?thesis by simp
qed

section \<open>The index after the re-sort\<close>

text \<open>
  Claim C3, at a failing input. A merge of the buckets of one message of Ann and two of Bob
  into an empty store appends Ann's row at row 2 and Bob's at row 3 and records these
  rows in the index; the re-sort by count then moves Bob's row to row 2, where the index
  still locates Ann.
\<close>

theorem index_stale_after_resort:
  "readIndex (snd (mergeRunMapUsingIndex [] [] (processMessages [fromA, fromB, fromB] [])))
     ''ann@x.com'' = Some 2
   \<and> senderEmail (getRow (fst (mergeWrites [] [] (processMessages [fromA, fromB, fromB] []))) 2)
       = ''ann@x.com''
   \<and> senderEmail (getRow (fst (mergeRunMapUsingIndex [] []
                                  (processMessages [fromA, fromB, fromB] []))) 2)
       = ''bob@y.org''"
  by code_simp

text \<open>
  Claim C5, at a failing input. The inbox \<open>twoSenders\<close> holds two messages of Ann and two of
  Bob. A cycle with one checkpoint at the end stores the counts 2 and 2; a cycle in which
  the time-based checkpoint falls after the first page stores 1 for Ann and 3 for Bob,
  because the second merge updates the row the stale index names.
\<close>

theorem counts_depend_on_checkpoints:
  "map (\<lambda>r. (senderEmail r, rowCount r))
     (sheet (fst (buildSenderReportBatch stillClock twoSenders [] [] noProps)))
     = [(''ann@x.com'', 2), (''bob@y.org'', 2)]
   \<and> map (\<lambda>r. (senderEmail r, rowCount r))
     (sheet (fst (buildSenderReportBatch pausingClock twoSenders [] [] noProps)))
     = [(''bob@y.org'', 3), (''ann@x.com'', 1)]"
  by code_simp

section \<open>The order of the writes of a checkpoint\<close>

lemma checkpointBoundaries_last:
  "last (checkpointBoundaries early sh ix pr rm cur tot) =
     (case checkpoint sh ix pr rm cur tot of (sh', ix', pr') \<Rightarrow>
        \<lparr>committedSheet = sh', committedIndex = ix', savedProps = pr'\<rparr>)"
  by (simp add: checkpointBoundaries_def checkpoint_def Let_def)

text \<open>
  Claim C2, at a failing input. In a checkpoint of one bucket at cursor 50, when the
  spreadsheet service holds the batched writes until \<open>flush\<close>, the boundary after
  \<open>setProperty(KEYS.CURSOR, ...)\<close> has the cursor 50 stored while the committed sheet is
  still empty; the row is committed only at the last boundary.
\<close>

theorem cursor_saved_before_flush:
  "CURSOR (savedProps (checkpointBoundaries False [] [] noProps
                         (processMessages [fromA] []) 50 50 ! 2)) = Some 50
   \<and> committedSheet (checkpointBoundaries False [] [] noProps
                       (processMessages [fromA] []) 50 50 ! 2) = []
   \<and> map senderEmail (committedSheet (checkpointBoundaries False [] [] noProps
                                        (processMessages [fromA] []) 50 50 ! 4))
       = [''ann@x.com'']"
  by code_simp

section \<open>The cursor and the merged threads\<close>

lemma totalEmails_sum: "totalEmails (getSheetStats sh) = sum_list (map rowCount sh)"
  by (induction sh) (simp_all add: getSheetStats_def)

lemma sum_insort_key:
  "sum_list (map f (insort_key g x xs)) = (f::'a \<Rightarrow> nat) x + sum_list (map f xs)"
  by (induction xs) simp_all

lemma sum_sort_key: "sum_list (map f (sort_key g xs)) = sum_list (map (f::'a \<Rightarrow> nat) xs)"
  by (induction xs) (simp_all add: sum_insort_key)

lemma sum_filter_split:
  "sum_list (map f (filter P xs)) + sum_list (map f (filter (\<lambda>x. \<not> P x) xs))
     = sum_list (map (f::'a \<Rightarrow> nat) xs)"
  by (induction xs) simp_all

lemma objectEntries_total: "runMapTotal (objectEntries rm) = runMapTotal rm"
  unfolding runMapTotal_def objectEntries_def
  by (simp add: sum_sort_key sum_filter_split)

lemma partitionKeys_total:
  "sum_list (map (\<lambda>kr. rowCount (snd kr)) (fst (partitionKeys im es)))
     + sum_list (map (\<lambda>u. count (snd (snd u))) (snd (partitionKeys im es)))
   = runMapTotal es"
  by (induction im es rule: partitionKeys.induct)
     (simp_all add: runMapTotal_def buildRowFromBucket_def split: option.splits)

lemma partitionKeys_existing:
  "u \<in> set (snd (partitionKeys im es)) \<Longrightarrow> im (fst u) = Some (fst (snd u))"
  by (induction im es rule: partitionKeys.induct) (auto split: option.splits)

lemma sum_list_update_nat:
  "i < length xs \<Longrightarrow>
   sum_list (map f (xs[i := v])) + f (xs ! i) = sum_list (map (f::'a \<Rightarrow> nat) xs) + f v"
proof (induction xs arbitrary: i)
  case Nil
  then show ?case by simp
next
  case (Cons a xs)
  then show ?case by (cases i) (simp_all add: add.assoc add.left_commute)
qed

lemma setRow_total:
  assumes "2 \<le> r"
  shows "sum_list (map rowCount (setRow sh r v)) + rowCount (getRow sh r)
           = sum_list (map rowCount sh) + rowCount v"
proof (cases "r - 2 < length sh")
  case True
  then have "setRow sh r v = sh[r - 2 := v]" "getRow sh r = sh ! (r - 2)"
    using assms by (simp_all add: setRow_def getRow_def)
  then show ?thesis using sum_list_update_nat[OF True, of rowCount v] by simp
next
  case False
  let ?p = "sh @ replicate (r - 1 - length sh) emptyRow"
  have i: "r - 2 < length ?p" using assms False by simp
  have n: "?p ! (r - 2) = emptyRow" using assms False by (simp add: nth_append)
  have g: "getRow sh r = emptyRow" using False by (simp add: getRow_def)
  have s: "sum_list (map rowCount ?p) = sum_list (map rowCount sh)"
    by (simp add: emptyRow_def)
  from sum_list_update_nat[OF i, of rowCount v] show ?thesis
    unfolding n s g by (simp add: setRow_def emptyRow_def)
qed

lemma updateExisting_total:
  assumes "2 \<le> fst (snd u)"
  shows "sum_list (map rowCount (updateExisting sh u))
           = sum_list (map rowCount sh) + count (snd (snd u))"
proof -
  obtain k r b where u: "u = (k, r, b)" by (cases u)
  with assms have r: "2 \<le> r" by simp
  from setRow_total[OF r, of sh "mergeRowVals (getRow sh r) b"]
  show ?thesis using r by (simp add: u updateExisting_def mergeRowVals_def Let_def)
qed

lemma foldl_updateExisting_total:
  "\<forall>u \<in> set us. 2 \<le> fst (snd u) \<Longrightarrow>
   sum_list (map rowCount (foldl updateExisting sh us))
     = sum_list (map rowCount sh) + sum_list (map (\<lambda>u. count (snd (snd u))) us)"
  by (induction us arbitrary: sh) (simp_all add: updateExisting_total)

lemma merge_total:
  "totalEmails (getSheetStats (fst (mergeRunMapUsingIndex sh ix rm)))
     = totalEmails (getSheetStats sh) + runMapTotal rm"
proof (cases "rm = []")
  case True
  then show ?thesis by (simp add: mergeRunMapUsingIndex_def runMapTotal_def)
next
  case False
  let ?p = "partitionKeys (readIndex ix) (objectEntries rm)"
  have ge: "\<forall>u \<in> set (snd ?p). 2 \<le> fst (snd u)"
    using partitionKeys_existing readIndex_gt1 by fastforce
  have "sum_list (map rowCount (fst (mergeWrites sh ix rm)))
          = sum_list (map rowCount sh) + runMapTotal rm"
    using foldl_updateExisting_total[OF ge, of "sh @ map snd (fst ?p)"]
      partitionKeys_total[of "readIndex ix" "objectEntries rm"]
    by (simp add: mergeWrites_def Let_def objectEntries_total comp_def)
  with False show ?thesis
    by (simp add: mergeRunMapUsingIndex_def totalEmails_sum sortByCountDesc_def sum_sort_key)
qed

lemma alist_update_total:
  "runMapTotal (AList.update k v rm) + (case map_of rm k of None \<Rightarrow> 0 | Some b \<Rightarrow> count b)
     = runMapTotal rm + count v"
  by (induction rm) (auto simp: runMapTotal_def)

lemma processMessage_not_counted: "\<not> counted m \<Longrightarrow> processMessage m rm = rm"
  by (auto simp: processMessage_def counted_def Let_def split: prod.splits)

lemma processMessage_counted_eq:
  assumes "counted m"
  shows "processMessage m rm =
           AList.update (keyOf m)
             (absorbMessage (case map_of rm (keyOf m) of
                               None \<Rightarrow> newBucket (fst (parseFrom (getFrom m)))
                                         (snd (parseFrom (getFrom m)))
                             | Some b \<Rightarrow> b) m) rm"
proof -
  obtain e n where p: "parseFrom (getFrom m) = (e, n)" by (cases "parseFrom (getFrom m)")
  from assms p have c: "isInInbox m" "e \<noteq> []" "toLowerCase e \<notin> set objectPrototypeKeys"
    by (auto simp: counted_def)
  have fs: "fst (parseFrom (getFrom m)) = e" "snd (parseFrom (getFrom m)) = n"
    by (simp_all add: p)
  show ?thesis
    unfolding keyOf_def fs
    by (simp add: processMessage_def p c Let_def absorbMessage_def)
qed

lemma absorbMessage_count: "count (absorbMessage b m) = count b + 1"
  by (simp add: absorbMessage_def absorb_def)

lemma processMessage_total:
  "runMapTotal (processMessage m rm) = runMapTotal rm + (if counted m then 1 else 0)"
proof (cases "counted m")
  case False
  then show ?thesis by (simp add: processMessage_not_counted)
next
  case True
  show ?thesis
  proof (cases "map_of rm (keyOf m)")
    case None
    with alist_update_total[of "keyOf m" _ rm] True show ?thesis
      by (simp add: processMessage_counted_eq absorbMessage_count newBucket_def)
  next
    case (Some b)
    with alist_update_total[of "keyOf m" "absorbMessage b m" rm] True show ?thesis
      by (simp add: processMessage_counted_eq absorbMessage_count)
  qed
qed

lemma processMessages_total:
  "runMapTotal (processMessages ms rm) = runMapTotal rm + length (filter counted ms)"
  by (induction ms arbitrary: rm) (simp_all add: processMessage_total)

lemma pageInterrupted_iff:
  "pageInterrupted clk rs n t = (\<exists>i<n. clk (t + i) - rs > RUNTIME_HARD_LIMIT_MS)"
  by (auto simp: pageInterrupted_def list_ex_iff)

lemma pageInterrupted_Suc:
  "pageInterrupted clk rs (Suc n) t =
     (clk t - rs > RUNTIME_HARD_LIMIT_MS \<or> pageInterrupted clk rs n (Suc t))"
proof -
  have "(\<exists>i<Suc n. P (t + i)) = (P t \<or> (\<exists>i<n. P (Suc t + i)))" for P :: "nat \<Rightarrow> bool"
  proof
    assume "\<exists>i<Suc n. P (t + i)"
    then obtain i where i: "i < Suc n" "P (t + i)" by blast
    show "P t \<or> (\<exists>i<n. P (Suc t + i))"
    proof (cases i)
      case 0
      with i show ?thesis by simp
    next
      case (Suc j)
      with i have "j < n" "P (Suc t + j)" by simp_all
      then show ?thesis by blast
    qed
  next
    assume "P t \<or> (\<exists>i<n. P (Suc t + i))"
    then show "\<exists>i<Suc n. P (t + i)"
    proof
      assume "P t"
      then have "P (t + 0)" by simp
      then show ?thesis by blast
    next
      assume "\<exists>i<n. P (Suc t + i)"
      then obtain i where "i < n" "P (Suc t + i)" by blast
      then have "Suc i < Suc n" "P (t + Suc i)" by simp_all
      then show ?thesis by blast
    qed
  qed
  then show ?thesis unfolding pageInterrupted_iff by simp
qed

lemma processThreads_total:
  "\<not> pageInterrupted clk rs (length ths) t \<Longrightarrow>
   runMapTotal (fst (processThreads clk rs ths rm t))
     = runMapTotal rm + sum_list (map (\<lambda>th. length (filter counted th)) ths)"
proof (induction ths arbitrary: rm t)
  case Nil
  then show ?case by simp
next
  case (Cons a ths)
  from Cons.prems have ok: "\<not> clk t - rs > RUNTIME_HARD_LIMIT_MS"
    and rest: "\<not> pageInterrupted clk rs (length ths) (Suc t)"
    by (simp_all add: pageInterrupted_Suc)
  have a: "runMapTotal (if a = [] then rm else processMessages a rm)
             = runMapTotal rm + length (filter counted a)"
    by (simp add: processMessages_total)
  show ?case
    using ok Cons.IH[OF rest, of "if a = [] then rm else processMessages a rm"] a
    by simp
qed

lemma countedIn_step:
  assumes "c0 \<le> c"
  shows "countedIn inbox c0 (c + length (search inbox c n))
           = countedIn inbox c0 c
             + sum_list (map (\<lambda>th. length (filter counted th)) (search inbox c n))"
proof -
  let ?xs = "drop c0 inbox"
  have d: "drop (c - c0) ?xs = drop c inbox" using assms by simp
  have t: "take (min (length inbox - c) n) (drop c inbox) = take n (drop c inbox)"
    by (cases "n \<le> length inbox - c") (simp_all add: min_def)
  have "take (c + length (search inbox c n) - c0) ?xs
          = take (c - c0) ?xs @ take (length (search inbox c n)) (drop (c - c0) ?xs)"
    using assms take_add[of "c - c0" "length (search inbox c n)" ?xs] by simp
  also have "\<dots> = take (c - c0) ?xs @ search inbox c n"
    unfolding d by (simp add: search_def t)
  finally show ?thesis by (simp add: countedIn_def)
qed

lemma countedIn_same: "countedIn inbox c c = 0"
  by (simp add: countedIn_def)

lemma doCheckpoint_facts:
  "totalEmails (getSheetStats (sheet (doCheckpoint s)))
     = totalEmails (getSheetStats (sheet s)) + runMapTotal (runMap s)"
  "CURSOR (props (doCheckpoint s)) = Some (cursor s)"
  "consoleLog (doCheckpoint s)
     = consoleLog s @ [(cursor s, getSheetStats (sheet (doCheckpoint s)))]"
  "cursor (doCheckpoint s) = cursor s"
  "runMap (doCheckpoint s) = runMap s"
  "totalProcessed (doCheckpoint s) = totalProcessed s"
  by (simp_all add: doCheckpoint_def checkpoint_def Let_def merge_total)

lemma loopBody_accounted:
  assumes "accounted inbox c0 T0 s"
    and "\<not> pageInterrupted clk rs (length (search inbox (cursor s) n)) (ticks s)"
  shows "accounted inbox c0 T0 (loopBody clk rs (search inbox (cursor s) n) s)"
proof -
  let ?ths = "search inbox (cursor s) n"
  let ?pt = "processThreads clk rs ?ths (runMap s) (ticks s)"
  define s1 where "s1 = s\<lparr>runMap := fst ?pt,
                 cursor := cursor s + length ?ths,
                 threadsSinceCheckpoint := threadsSinceCheckpoint s + length ?ths,
                 totalProcessed := totalProcessed s + length ?ths,
                 ticks := Suc (snd ?pt)\<rparr>"
  from assms(1) have c0: "c0 \<le> cursor s" by (simp add: accounted_def)
  have rm: "runMapTotal (fst ?pt) = runMapTotal (runMap s)
              + sum_list (map (\<lambda>th. length (filter counted th)) ?ths)"
    using processThreads_total[OF assms(2)] .
  have a1: "accounted inbox c0 T0 s1"
    using assms(1) rm countedIn_step[OF c0, of inbox n]
    by (simp add: accounted_def s1_def)
  have a2: "accounted inbox c0 T0 ((doCheckpoint s1)\<lparr>runMap := [], threadsSinceCheckpoint := 0,
                 lastCheckpointTime := x, ticks := y\<rparr>)" for x y
    using a1 by (simp add: accounted_def doCheckpoint_facts propOr0_def runMapTotal_def)
  show ?thesis
    using a1 a2 unfolding loopBody_def Let_def s1_def[symmetric]
    by (simp add: s1_def[symmetric])
qed

lemma accounted_ticks: "accounted inbox c0 T0 (s\<lparr>ticks := t\<rparr>) = accounted inbox c0 T0 s"
  by (simp add: accounted_def)

lemma mainLoop_accounted:
  "accounted inbox c0 T0 s \<Longrightarrow> \<not> hardLimitMidPage clk rs inbox s \<Longrightarrow>
   accounted inbox c0 T0 (mainLoop clk rs inbox s)"
proof (induction clk rs inbox s rule: mainLoop.induct)
  case (1 clk rs inbox s)
  show ?case
  proof (cases "clk (ticks s) - rs > RUNTIME_HARD_LIMIT_MS")
    case True
    then show ?thesis
      using "1.prems"(1) by (simp add: mainLoop.simps[of clk rs inbox s] accounted_ticks)
  next
    case False
    show ?thesis
    proof (cases "search inbox (cursor s) PAGE_SIZE_THREADS = []")
      case True
      with False show ?thesis
        using "1.prems"(1) by (simp add: mainLoop.simps[of clk rs inbox s] accounted_ticks)
    next
      case ne: False
      let ?s1 = "s\<lparr>ticks := Suc (ticks s)\<rparr>"
      let ?ths = "search inbox (cursor s) PAGE_SIZE_THREADS"
      from "1.prems"(2) False ne
      have np: "\<not> pageInterrupted clk rs (length ?ths) (Suc (ticks s))"
        and nh: "\<not> hardLimitMidPage clk rs inbox (loopBody clk rs ?ths ?s1)"
        by (simp_all add: hardLimitMidPage.simps[of clk rs inbox s])
      have "accounted inbox c0 T0 (loopBody clk rs (search inbox (cursor ?s1) PAGE_SIZE_THREADS) ?s1)"
        by (rule loopBody_accounted) (simp_all add: accounted_ticks "1.prems"(1) np)
      then have "accounted inbox c0 T0 (loopBody clk rs ?ths ?s1)" by simp
      from "1.IH"[OF False ne this nh] False ne show ?thesis
        by (simp add: mainLoop.simps[of clk rs inbox s])
    qed
  qed
qed



lemma startState_sheet: "sheet (startState clk sh ix pr) = sh"
  by (cases sh) (simp_all add: startState_def firstTimeInit_def setupHeader_def getLastRow_def Let_def)

lemma startState_cursor:
  "cursor (startState clk sh ix pr) = (if INITIALIZED pr then propOr0 (CURSOR pr) else 0)"
  by (simp add: startState_def firstTimeInit_def propOr0_def Let_def)

lemma startState_accounted:
  "accounted inbox (cursor (startState clk sh ix pr)) (totalEmails (getSheetStats sh))
     (startState clk sh ix pr)"
proof -
  have "propOr0 (CURSOR (props (startState clk sh ix pr))) = cursor (startState clk sh ix pr)"
    "runMap (startState clk sh ix pr) = []" "consoleLog (startState clk sh ix pr) = []"
    by (simp_all add: startState_def Let_def)
  then show ?thesis
    by (simp add: accounted_def startState_sheet countedIn_same runMapTotal_def)
qed

lemma finish_accounted:
  assumes "accounted inbox c0 T0 s1"
  shows "list_all (\<lambda>e. totalEmails (snd e) = T0 + countedIn inbox c0 (fst e))
           (consoleLog (fst (finish inbox s1)))
       \<and> totalEmails (getSheetStats (sheet (fst (finish inbox s1))))
           = T0 + countedIn inbox c0 (cursor (fst (finish inbox s1)))
       \<and> (case snd (finish inbox s1) of
             ProgressSaved t st c \<Rightarrow>
               CURSOR (props (fst (finish inbox s1))) = Some c
               \<and> c = cursor (fst (finish inbox s1))
           | _ \<Rightarrow> True)"
proof -
  define s2 where "s2 = (if runMap s1 \<noteq> [] then doCheckpoint s1 else s1)"
  have l: "list_all (\<lambda>e. totalEmails (snd e) = T0 + countedIn inbox c0 (fst e)) (consoleLog s2)"
    and t: "totalEmails (getSheetStats (sheet s2)) = T0 + countedIn inbox c0 (cursor s2)"
    using assms by (auto simp: s2_def accounted_def doCheckpoint_facts runMapTotal_def)
  show ?thesis
    using l t unfolding finish_def Let_def s2_def[symmetric]
    by (simp add: s2_def[symmetric])
qed

text \<open>
  Claim C1, as the code has it. After a complete scan the resumption state is cleared. The
  next cycle finds it unset and the store not empty, keeps the store, and starts at the
  cursor 0 although the store already reflects the one thread of the inbox: the thread is
  counted a second time.
\<close>

theorem uninitialized_state_rescans_from_zero:
  "\<not> INITIALIZED (props (fst firstScan))
   \<and> map rowCount (sheet (fst firstScan)) = [1]
   \<and> cursor (startState stillClock (sheet (fst firstScan)) (indexSheet (fst firstScan))
               (props (fst firstScan))) = 0
   \<and> map rowCount
        (sheet (fst (buildSenderReportBatch stillClock [[fromA]] (sheet (fst firstScan))
                       (indexSheet (fst firstScan)) (props (fst firstScan))))) = [2]"
  by code_simp

text \<open>
  The other way the cursor runs ahead of the store: when the hard limit stops the loop
  over a page after its first thread, the cursor still advances by the whole page. Here
  the checkpoint saves the cursor 50 with one email stored, while the first 50 threads
  hold three counted messages.
\<close>

lemma hard_limit_mid_page_skips_threads:
  "(let r = buildSenderReportBatch interruptingClock twoSenders [] [] noProps
    in (snd r, CURSOR (props (fst r)), map senderEmail (sheet (fst r))))
     = (ProgressSaved 50 \<lparr>senderCount = 1, totalEmails = 1\<rparr> 50, Some 50, [''ann@x.com''])
   \<and> countedIn twoSenders 0 50 = 3"
  by code_simp

section \<open>Exhaustion of the source\<close>

lemma loopBody_counters:
  "cursor (loopBody clk rs ths s) = cursor s + length ths"
  "totalProcessed (loopBody clk rs ths s) = totalProcessed s + length ths"
  by (simp_all add: loopBody_def doCheckpoint_def Let_def)

lemma search_Nil_iff: "0 < n \<Longrightarrow> (search inbox c n = []) = (length inbox \<le> c)"
  by (simp add: search_def)

lemma mainLoop_exhausts:
  assumes "\<forall>k. clk k - rs \<le> RUNTIME_HARD_LIMIT_MS"
  shows "cursor (mainLoop clk rs inbox s) = max (cursor s) (length inbox)
       \<and> totalProcessed (mainLoop clk rs inbox s)
           = totalProcessed s + (max (cursor s) (length inbox) - cursor s)"
  using assms
proof (induction clk rs inbox s rule: mainLoop.induct)
  case (1 clk rs inbox s)
  have nl: "\<not> clk (ticks s) - rs > RUNTIME_HARD_LIMIT_MS"
    using "1.prems" by (simp add: not_less)
  show ?case
  proof (cases "search inbox (cursor s) PAGE_SIZE_THREADS = []")
    case True
    then have "length inbox \<le> cursor s"
      by (simp add: search_Nil_iff PAGE_SIZE_THREADS_def)
    with True nl show ?thesis
      by (simp add: mainLoop.simps[of clk rs inbox s] max_def)
  next
    case False
    let ?ths = "search inbox (cursor s) PAGE_SIZE_THREADS"
    let ?s' = "loopBody clk rs ?ths (s\<lparr>ticks := Suc (ticks s)\<rparr>)"
    from False have lt: "cursor s < length inbox"
      by (simp add: search_Nil_iff PAGE_SIZE_THREADS_def)
    have len: "length ?ths \<le> length inbox - cursor s"
      by (simp add: search_def)
    have c': "cursor ?s' = cursor s + length ?ths"
      "totalProcessed ?s' = totalProcessed s + length ?ths"
      by (simp_all add: loopBody_counters)
    from "1.IH"[OF nl False "1.prems"] nl False
    have "cursor (mainLoop clk rs inbox s) = max (cursor ?s') (length inbox)"
      "totalProcessed (mainLoop clk rs inbox s)
         = totalProcessed ?s' + (max (cursor ?s') (length inbox) - cursor ?s')"
      by (simp_all add: mainLoop.simps[of clk rs inbox s])
    with c' lt len show ?thesis by (simp add: max_def)
  qed
qed

lemma finish_counters:
  "cursor (fst (finish inbox s)) = cursor s"
  "totalProcessed (fst (finish inbox s)) = totalProcessed s"
  by (simp_all add: finish_def doCheckpoint_def Let_def)

lemma finish_done:
  assumes "search inbox (cursor s) 1 = []"
  shows "snd (finish inbox s) = ScanComplete (totalProcessed s)
           (getSheetStats (sheet (fst (finish inbox s))))
       \<and> CURSOR (props (fst (finish inbox s))) = None
       \<and> TOTAL_PROCESSED (props (fst (finish inbox s))) = None
       \<and> \<not> INITIALIZED (props (fst (finish inbox s)))"
  using assms by (simp add: finish_def doCheckpoint_def Let_def)

lemma finish_not_done:
  assumes "search inbox (cursor s) 1 \<noteq> []"
  shows "snd (finish inbox s) = ProgressSaved (totalProcessed s)
           (getSheetStats (sheet (fst (finish inbox s)))) (cursor s)
       \<and> CURSOR (props (fst (finish inbox s))) = Some (cursor s)
       \<and> TOTAL_PROCESSED (props (fst (finish inbox s))) = Some (totalProcessed s)"
  using assms by (simp add: finish_def doCheckpoint_def Let_def)

text \<open>
  Claim C8. When the inbox has 150 threads, the hard limit is never reached and the
  resumption state is not initialized, the cycle ends with the outcome \<open>ScanComplete\<close>
  and 150 threads processed; the probe at the final cursor is empty, and the three
  properties of the resumption state are removed. Whenever the probe at the final cursor
  is not empty, the end of the driver reports \<open>ProgressSaved\<close> and saves the final cursor
  and the total.
\<close>

theorem exhaustion_detection:
  assumes "length inbox = 150" and "\<forall>k. clk k - clk 0 \<le> RUNTIME_HARD_LIMIT_MS"
    and "\<not> INITIALIZED pr"
  shows "snd (buildSenderReportBatch clk inbox sh ix pr)
           = ScanComplete 150
               (getSheetStats (sheet (fst (buildSenderReportBatch clk inbox sh ix pr))))
       \<and> totalProcessed (fst (buildSenderReportBatch clk inbox sh ix pr)) = 150
       \<and> search inbox (cursor (fst (buildSenderReportBatch clk inbox sh ix pr))) 1 = []
       \<and> CURSOR (props (fst (buildSenderReportBatch clk inbox sh ix pr))) = None
       \<and> TOTAL_PROCESSED (props (fst (buildSenderReportBatch clk inbox sh ix pr))) = None
       \<and> \<not> INITIALIZED (props (fst (buildSenderReportBatch clk inbox sh ix pr)))
       \<and> (\<forall>s. search inbox (cursor s) 1 \<noteq> [] \<longrightarrow>
             snd (finish inbox s) = ProgressSaved (totalProcessed s)
                 (getSheetStats (sheet (fst (finish inbox s)))) (cursor s)
             \<and> CURSOR (props (fst (finish inbox s))) = Some (cursor s)
             \<and> TOTAL_PROCESSED (props (fst (finish inbox s))) = Some (totalProcessed s))"
proof -
  let ?s0 = "startState clk sh ix pr"
  have s0: "cursor ?s0 = 0" "totalProcessed ?s0 = 0"
    using assms(3) by (simp_all add: startState_def firstTimeInit_def propOr0_def Let_def)
  have ne: "search inbox (cursor ?s0) 1 \<noteq> []"
    using assms(1) by (simp add: s0 search_Nil_iff)
  then have b: "buildSenderReportBatch clk inbox sh ix pr
                  = finish inbox (mainLoop clk (clk 0) inbox ?s0)"
    by (simp add: buildSenderReportBatch_def Let_def)
  let ?s1 = "mainLoop clk (clk 0) inbox ?s0"
  from mainLoop_exhausts[OF assms(2), of inbox ?s0]
  have s1: "cursor ?s1 = 150" "totalProcessed ?s1 = 150"
    by (simp_all add: s0 assms(1))
  have d: "search inbox (cursor ?s1) 1 = []"
    by (simp add: s1 search_Nil_iff assms(1))
  from finish_done[OF d] finish_counters[of inbox ?s1] d finish_not_done
  show ?thesis unfolding b by (simp add: s1)
qed



theorem exhaustion_detection_witness:
  "length (replicate 150 [fromA]) = 150
   \<and> (\<forall>k. stillClock k - stillClock 0 \<le> RUNTIME_HARD_LIMIT_MS)
   \<and> \<not> INITIALIZED noProps
   \<and> snd (buildSenderReportBatch stillClock (replicate 150 [fromA]) [] [] noProps)
       = ScanComplete 150
           (getSheetStats
              (sheet (fst (buildSenderReportBatch stillClock (replicate 150 [fromA]) [] []
                             noProps))))
   \<and> props (fst (buildSenderReportBatch stillClock (replicate 150 [fromA]) [] [] noProps))
       = noProps"
proof -
  have h: "length (replicate 150 [fromA]) = 150"
    "\<forall>k. stillClock k - stillClock 0 \<le> RUNTIME_HARD_LIMIT_MS"
    "\<not> INITIALIZED noProps"
    by (simp_all add: stillClock_def RUNTIME_HARD_LIMIT_MS_def noProps_def)
  from exhaustion_detection[OF h, of "[]" "[]"] h show ?thesis
    by (simp add: noProps_def)
qed

section \<open>The merge before the re-sort\<close>

text \<open>
  The writes of \<open>mergeRunMapUsingIndex\<close> that precede \<open>filter.sort\<close> are the function
  \<open>mergeWrites\<close>. This section shows that these writes alone keep the index right and add
  the counts per address, whatever the division of the messages into checkpoints: the
  re-sort is the only step of the merge after which the index names other rows.
\<close>

subsection \<open>Reading an index that matches the sheet\<close>

lemma readIndex_alt: "readIndex values = foldl readIndexStep Map.empty values"
proof -
  have "(\<lambda>m (k, r).
              (let emailLc = toLowerCase (trim k)
               in if emailLc \<noteq> [] \<and> r > 1 \<and> emailLc \<noteq> ''__proto__''
                  then m(emailLc \<mapsto> r) else m)) = readIndexStep"
    by (intro ext) (simp add: readIndexStep_def Let_def split: prod.splits)
  then show ?thesis by (simp add: readIndex_def)
qed

lemma readIndexStep_normal:
  "normalKey k \<Longrightarrow> 1 < r \<Longrightarrow> readIndexStep m (k, r) = m(k \<mapsto> r)"
  by (simp add: normalKey_def readIndexStep_def Let_def)

lemma readIndex_fold_absent:
  "list_all normalKey (map fst ix) \<Longrightarrow> list_all (\<lambda>r. 1 < r) (map snd ix) \<Longrightarrow>
   k \<notin> set (map fst ix) \<Longrightarrow> foldl readIndexStep m ix k = m k"
proof (induction ix arbitrary: m)
  case Nil
  then show ?case by simp
next
  case (Cons a ix)
  obtain k0 r0 where a: "a = (k0, r0)" by (cases a)
  from Cons.prems a have n: "normalKey k0" "1 < r0" "k \<noteq> k0" by auto
  have s: "readIndexStep m (k0, r0) = m(k0 \<mapsto> r0)"
    using n by (simp add: readIndexStep_normal)
  have "foldl readIndexStep (m(k0 \<mapsto> r0)) ix k = (m(k0 \<mapsto> r0)) k"
    using Cons.prems by (intro Cons.IH) simp_all
  then show ?case using n unfolding a foldl_Cons s by simp
qed

lemma readIndex_fold_present:
  "list_all normalKey (map fst ix) \<Longrightarrow> list_all (\<lambda>r. 1 < r) (map snd ix) \<Longrightarrow>
   distinct (map fst ix) \<Longrightarrow> (k, r) \<in> set ix \<Longrightarrow> foldl readIndexStep m ix k = Some r"
proof (induction ix arbitrary: m)
  case Nil
  then show ?case by simp
next
  case (Cons a ix)
  obtain k0 r0 where a: "a = (k0, r0)" by (cases a)
  from Cons.prems a have n: "normalKey k0" "1 < r0" by auto
  have s: "readIndexStep m (k0, r0) = m(k0 \<mapsto> r0)"
    using n by (simp add: readIndexStep_normal)
  show ?case
  proof (cases "(k, r) \<in> set ix")
    case True
    then show ?thesis using Cons.prems by (simp add: Cons.IH)
  next
    case False
    with Cons.prems a have e: "k = k0" "r = r0" by auto
    from Cons.prems a have "k0 \<notin> set (map fst ix)" by simp
    then have "foldl readIndexStep (m(k0 \<mapsto> r0)) ix k0 = (m(k0 \<mapsto> r0)) k0"
      using Cons.prems by (intro readIndex_fold_absent) simp_all
    then show ?thesis unfolding a foldl_Cons s e by simp
  qed
qed

lemma indexMatchesD:
  assumes "indexMatches sh ix"
  shows "map fst ix = map senderEmail sh" "map snd ix = map (\<lambda>i. i + 2) [0 ..< length sh]"
    "distinct (map fst ix)" "list_all normalKey (map fst ix)"
  using assms unfolding indexMatches_def by blast+

lemma indexMatches_rows:
  assumes "indexMatches sh ix"
  shows "list_all (\<lambda>r. 1 < r) (map snd ix)"
  unfolding indexMatchesD(2)[OF assms] by (simp add: list_all_iff)

lemma indexMatches_entry:
  assumes "indexMatches sh ix"
  shows "((k, r) \<in> set ix) = (2 \<le> r \<and> r - 2 < length sh \<and> senderEmail (sh ! (r - 2)) = k)"
proof -
  have z: "ix = zip (map senderEmail sh) (map (\<lambda>i. i + 2) [0 ..< length sh])"
    using indexMatchesD(1,2)[OF assms] by (metis zip_map_fst_snd)
  show ?thesis
  proof
    assume "(k, r) \<in> set ix"
    then have "(k, r) \<in> set (zip (map senderEmail sh) (map (\<lambda>i. i + 2) [0 ..< length sh]))"
      using z by simp
    then obtain i where i: "i < length sh" "k = senderEmail (sh ! i)" "r = i + 2"
      by (auto simp: set_zip)
    then show "2 \<le> r \<and> r - 2 < length sh \<and> senderEmail (sh ! (r - 2)) = k" by simp
  next
    assume h: "2 \<le> r \<and> r - 2 < length sh \<and> senderEmail (sh ! (r - 2)) = k"
    then have "(k, r) \<in> set (zip (map senderEmail sh) (map (\<lambda>i. i + 2) [0 ..< length sh]))"
      by (auto simp: set_zip intro!: exI[of _ "r - 2"])
    then show "(k, r) \<in> set ix" using z by simp
  qed
qed

text \<open>
  Over an index that matches the sheet, \<open>readIndex\<close> finds for an address exactly the rows
  that hold it.
\<close>

lemma readIndex_indexMatches:
  assumes "indexMatches sh ix"
  shows "(readIndex ix k = Some r)
           = (2 \<le> r \<and> r - 2 < length sh \<and> senderEmail (sh ! (r - 2)) = k)"
proof -
  note n = indexMatchesD(4)[OF assms] and d = indexMatchesD(3)[OF assms]
  note g = indexMatches_rows[OF assms]
  show ?thesis
  proof (cases "k \<in> set (map fst ix)")
    case False
    then have "readIndex ix k = None"
      unfolding readIndex_alt using readIndex_fold_absent[OF n g False, of Map.empty] by simp
    moreover from False have "(k, r) \<notin> set ix" by force
    ultimately show ?thesis using indexMatches_entry[OF assms, of k r] by simp
  next
    case True
    then obtain r' where r': "(k, r') \<in> set ix" by auto
    then have ri: "readIndex ix k = Some r'"
      unfolding readIndex_alt using readIndex_fold_present[OF n g d] by simp
    have "(k, r) \<in> set ix \<longleftrightarrow> r = r'"
      using r' d by (metis eq_key_imp_eq_value)
    with ri show ?thesis using indexMatches_entry[OF assms, of k r] by auto
  qed
qed

lemma isWhiteSpace_toLowerChar: "isWhiteSpace (toLowerChar c) = isWhiteSpace c"
  by (auto simp: isWhiteSpace_def toLowerChar_def isUpperCase_def Let_def)

lemma trim_toLowerCase: "trim (toLowerCase s) = toLowerCase (trim s)"
proof -
  have c: "isWhiteSpace \<circ> toLowerChar = isWhiteSpace"
    by (rule ext) (simp add: isWhiteSpace_toLowerChar)
  show ?thesis
    by (simp add: trim_def toLowerCase_def dropWhile_map rev_map c)
qed

lemma dropWhile_rev_dropWhile:
  "dropWhile P (rev (dropWhile P (rev (dropWhile P s)))) = rev (dropWhile P (rev (dropWhile P s)))"
proof (cases "dropWhile P (rev (dropWhile P s)) = []")
  case True
  show ?thesis unfolding True by simp
next
  case False
  let ?t = "dropWhile P s"
  have t: "?t \<noteq> []"
  proof
    assume "?t = []"
    then have "dropWhile P (rev ?t) = []" by (simp only: rev.simps dropWhile.simps)
    with False show False by contradiction
  qed
  then have h: "\<not> P (hd ?t)" by (simp add: hd_dropWhile)
  have "rev ?t = takeWhile P (rev ?t) @ dropWhile P (rev ?t)" by simp
  then have "?t = rev (dropWhile P (rev ?t)) @ rev (takeWhile P (rev ?t))"
    by (metis rev_append rev_rev_ident)
  then have "hd (rev (dropWhile P (rev ?t))) = hd ?t"
    using False by (metis hd_append2 rev_is_Nil_conv)
  with h show ?thesis by (simp add: dropWhile_eq_self_iff)
qed

lemma trim_idem: "trim (trim s) = trim s"
  by (simp add: trim_def dropWhile_rev_dropWhile)

lemma trim_Nil: "trim [] = []" "toLowerCase [] = []"
  by (simp_all add: trim_def toLowerCase_def)

lemma email_normal:
  "toLowerCase (trim (if trim x \<noteq> [] then toLowerCase (trim x) else trim x))
     = (if trim x \<noteq> [] then toLowerCase (trim x) else trim x)"
  by (simp add: trim_toLowerCase trim_idem toLowerCase_idem trim_Nil)

lemma parseFrom_normal:
  "toLowerCase (trim (fst (parseFrom raw))) = fst (parseFrom raw)"
proof (cases "angleMatch [] raw")
  case (Some a)
  obtain pre inner post where a: "a = (pre, inner, post)" by (cases a)
  show ?thesis using email_normal[of inner] by (simp add: parseFrom_def Some a Let_def)
next
  case None
  show ?thesis
  proof (cases "bareMatch [] raw")
    case n2: None
    with None show ?thesis by (simp add: parseFrom_def trim_Nil)
  next
    case (Some a)
    obtain pre m post where a: "a = (pre, m, post)" by (cases a)
    show ?thesis using email_normal[of m] by (simp add: parseFrom_def None Some a Let_def)
  qed
qed

subsection \<open>The writes keep the index right\<close>

lemma counted_normalKey:
  assumes "counted m"
  shows "normalKey (keyOf m)"
proof -
  let ?e = "fst (parseFrom (getFrom m))"
  have k: "keyOf m = ?e" by (simp add: keyOf_def parseFrom_lower)
  have "''__proto__'' \<in> set objectPrototypeKeys" by (simp add: objectPrototypeKeys_def)
  with assms have "keyOf m \<noteq> ''__proto__''" by (auto simp: counted_def keyOf_def)
  moreover have "keyOf m \<noteq> []" using assms by (simp add: k counted_def)
  moreover have "toLowerCase (trim (keyOf m)) = keyOf m" by (simp add: k parseFrom_normal)
  ultimately show ?thesis by (simp add: normalKey_def)
qed

lemma processMessage_wellKeyed:
  assumes "wellKeyed rm"
  shows "wellKeyed (processMessage m rm)"
proof (cases "counted m")
  case False
  then show ?thesis using assms by (simp add: processMessage_not_counted)
next
  case True
  have "list_all normalKey (map fst (AList.update (keyOf m) v rm))" for v
    using assms counted_normalKey[OF True] by (simp add: wellKeyed_def update_keys)
  moreover have "distinct (map fst (AList.update (keyOf m) v rm))" for v
    using assms by (simp add: wellKeyed_def distinct_update)
  moreover have "keysFolded (processMessage m rm)"
    using assms by (simp add: wellKeyed_def processMessage_keysFolded)
  ultimately show ?thesis
    by (simp add: wellKeyed_def processMessage_counted_eq[OF True])
qed

lemma processMessages_wellKeyed:
  "wellKeyed rm \<Longrightarrow> wellKeyed (processMessages ms rm)"
  by (induction ms arbitrary: rm) (simp_all add: processMessage_wellKeyed)

lemma wellKeyed_Nil: "wellKeyed []"
  by (simp add: wellKeyed_def keysFolded_def)

lemma distinct_objectEntries:
  assumes "distinct (map fst rm)"
  shows "distinct (map fst (objectEntries rm))"
proof -
  let ?P = "\<lambda>kb. isArrayIndex (fst kb)"
  let ?A = "sort_key (\<lambda>kb. (length (fst kb), fst kb)) (filter ?P rm)"
  let ?B = "filter (\<lambda>kb. \<not> ?P kb) rm"
  have inj: "inj_on fst (set rm)" and d: "distinct rm"
    using assms by (simp_all add: distinct_map)
  have a: "distinct (map fst ?A)"
    using inj d by (auto simp: distinct_map intro: inj_on_subset)
  have b: "distinct (map fst ?B)"
    using assms by (rule distinct_map_filter)
  have "fst ` set ?A \<inter> fst ` set ?B = {}" by auto
  with a b show ?thesis by (simp add: objectEntries_def)
qed

lemma partitionKeys_new_keys:
  "map fst (fst (partitionKeys im es)) = filter (\<lambda>k. im k = None) (map fst es)"
  by (induction im es rule: partitionKeys.induct) (simp_all split: option.splits)

lemma partitionKeys_new_emails:
  "keysFolded es \<Longrightarrow>
   map senderEmail (map snd (fst (partitionKeys im es))) = map fst (fst (partitionKeys im es))"
  by (induction im es rule: partitionKeys.induct)
     (auto simp: keysFolded_def buildRowFromBucket_def split: option.splits)

lemma updateExisting_emails:
  assumes "2 \<le> fst (snd u)" "fst (snd u) - 2 < length sh" "\<forall>e \<in> set (map senderEmail sh). e \<noteq> []"
  shows "map senderEmail (updateExisting sh u) = map senderEmail sh"
proof -
  obtain k r b where u: "u = (k, r, b)" by (cases u)
  with assms have r: "2 \<le> r" "r - 2 < length sh" by simp_all
  then have ne: "senderEmail (sh ! (r - 2)) \<noteq> []" using assms(3) by simp
  have "updateExisting sh u = sh[r - 2 := mergeRowVals (sh ! (r - 2)) b]"
    using r by (simp add: u updateExisting_def setRow_def getRow_def)
  moreover have "senderEmail (mergeRowVals (sh ! (r - 2)) b) = senderEmail (sh ! (r - 2))"
    using ne by (simp add: mergeRowVals_def Let_def)
  moreover have "(map senderEmail sh)[r - 2 := senderEmail (sh ! (r - 2))] = map senderEmail sh"
    using r by (metis list_update_id nth_map)
  ultimately show ?thesis
    by (simp add: map_update)
qed

lemma foldl_updateExisting_emails:
  "\<forall>u \<in> set us. 2 \<le> fst (snd u) \<and> fst (snd u) - 2 < length sh \<Longrightarrow>
   \<forall>e \<in> set (map senderEmail sh). e \<noteq> [] \<Longrightarrow>
   map senderEmail (foldl updateExisting sh us) = map senderEmail sh"
proof (induction us arbitrary: sh)
  case Nil
  then show ?case by simp
next
  case (Cons u us)
  have e: "map senderEmail (updateExisting sh u) = map senderEmail sh"
    using Cons.prems by (intro updateExisting_emails) simp_all
  then have l: "length (updateExisting sh u) = length sh" by (metis length_map)
  have "map senderEmail (foldl updateExisting (updateExisting sh u) us)
          = map senderEmail (updateExisting sh u)"
    using Cons.prems by (intro Cons.IH) (simp_all add: e l)
  then show ?case by (simp add: e)
qed

lemma normalKey_nonempty: "list_all normalKey ks \<Longrightarrow> \<forall>e \<in> set ks. e \<noteq> []"
  by (auto simp: list_all_iff normalKey_def)

lemma map_add2_upt: "map (\<lambda>i. i + 2) [a ..< a + n] = [a + 2 ..< a + 2 + n]"
  by (induction n) simp_all

lemma zip_upt_keys:
  "map fst (zip ks [a ..< a + length ks]) = ks"
  "map snd (zip ks [a ..< a + length ks]) = [a ..< a + length ks]"
  by simp_all

text \<open>
  If the index matches the sheet before the merge of a run map built by
  \<open>processMessages\<close>, it matches the sheet after the appends and the updates.
\<close>

theorem mergeWrites_indexMatches:
  assumes "indexMatches sh ix" and "wellKeyed rm"
  shows "indexMatches (fst (mergeWrites sh ix rm)) (snd (mergeWrites sh ix rm))"
proof -
  let ?im = "readIndex ix"
  let ?es = "objectEntries rm"
  let ?new = "fst (partitionKeys ?im ?es)"
  let ?ups = "snd (partitionKeys ?im ?es)"
  let ?sh1 = "sh @ map snd ?new"
  let ?n = "length ?new"
  note iD = indexMatchesD[OF assms(1)]
  from assms(2) have kf: "keysFolded rm" and dk: "distinct (map fst rm)"
    and nk: "list_all normalKey (map fst rm)"
    by (simp_all add: wellKeyed_def)
  have kfe: "keysFolded ?es" using kf by (simp add: keysFolded_def set_objectEntries)
  have nke: "list_all normalKey (map fst ?es)"
    using nk by (simp add: list_all_iff set_objectEntries)
  have newkeys: "map fst ?new = filter (\<lambda>k. ?im k = None) (map fst ?es)"
    by (rule partitionKeys_new_keys)
  have newemails: "map senderEmail (map snd ?new) = map fst ?new"
    using kfe by (rule partitionKeys_new_emails)
  have nknew: "list_all normalKey (map fst ?new)"
    using nke by (auto simp: newkeys list_all_iff)
  have dnew: "distinct (map fst ?new)"
    using distinct_objectEntries[OF dk] by (simp add: newkeys)
  have emails1: "map senderEmail ?sh1 = map fst ix @ map fst ?new"
    using iD(1) newemails by simp
  have ne1: "\<forall>e \<in> set (map senderEmail ?sh1). e \<noteq> []"
    unfolding emails1 using normalKey_nonempty[OF iD(4)] normalKey_nonempty[OF nknew] by auto
  have ups: "\<forall>u \<in> set ?ups. 2 \<le> fst (snd u) \<and> fst (snd u) - 2 < length ?sh1"
  proof
    fix u assume "u \<in> set ?ups"
    then have "?im (fst u) = Some (fst (snd u))" by (rule partitionKeys_existing)
    then show "2 \<le> fst (snd u) \<and> fst (snd u) - 2 < length ?sh1"
      using readIndex_indexMatches[OF assms(1), of "fst u" "fst (snd u)"] by simp
  qed
  have emails: "map senderEmail (foldl updateExisting ?sh1 ?ups) = map fst ix @ map fst ?new"
    using foldl_updateExisting_emails[OF ups ne1] emails1 by simp
  then have len: "length (foldl updateExisting ?sh1 ?ups) = length sh + ?n"
    using iD(1) by (metis length_append length_map)
  have ix1: "snd (mergeWrites sh ix rm)
               = ix @ zip (map fst ?new) [length sh + 2 ..< length sh + 2 + ?n]"
    by (simp add: mergeWrites_def Let_def getLastRow_def)
  have sh2: "fst (mergeWrites sh ix rm) = foldl updateExisting ?sh1 ?ups"
    by (simp add: mergeWrites_def Let_def)
  have ln: "length (map fst ?new) = ?n" by simp
  have f: "map fst (snd (mergeWrites sh ix rm)) = map fst ix @ map fst ?new"
    unfolding ix1 map_append using zip_upt_keys(1)[of "map fst ?new" "length sh + 2"]
    by (simp only: ln)
  have "map snd (snd (mergeWrites sh ix rm))
          = map (\<lambda>i. i + 2) [0 ..< length sh] @ [length sh + 2 ..< length sh + 2 + ?n]"
    unfolding ix1 map_append iD(2)
    using zip_upt_keys(2)[of "map fst ?new" "length sh + 2"] by (simp only: ln)
  also have "\<dots> = map (\<lambda>i. i + 2) ([0 ..< length sh] @ [length sh ..< length sh + ?n])"
    by (simp only: map_append map_add2_upt)
  also have "[0 ..< length sh] @ [length sh ..< length sh + ?n] = [0 ..< length sh + ?n]"
    by (rule upt_add_eq_append[symmetric]) simp
  finally have s: "map snd (snd (mergeWrites sh ix rm))
          = map (\<lambda>i. i + 2) [0 ..< length (fst (mergeWrites sh ix rm))]"
    by (simp add: sh2 len)
  have disj: "set (map fst ix) \<inter> set (map fst ?new) = {}"
  proof (rule ccontr)
    assume "set (map fst ix) \<inter> set (map fst ?new) \<noteq> {}"
    then obtain k where k: "k \<in> set (map fst ix)" "k \<in> set (map fst ?new)" by blast
    from k(1) obtain r where "(k, r) \<in> set ix" by auto
    then have "?im k = Some r"
      unfolding readIndex_alt
      using readIndex_fold_present[OF iD(4) indexMatches_rows[OF assms(1)] iD(3)] by simp
    moreover from k(2) have "?im k = None" by (simp add: newkeys)
    ultimately show False by simp
  qed
  have d: "distinct (map fst (snd (mergeWrites sh ix rm)))"
    unfolding f using iD(3) dnew disj by simp
  have n: "list_all normalKey (map fst (snd (mergeWrites sh ix rm)))"
    unfolding f using iD(4) nknew by simp
  show ?thesis
    unfolding indexMatches_def using f s d n emails by (simp add: sh2)
qed

subsection \<open>The writes add the counts per address\<close>

lemma bucketCount_Nil: "bucketCount k [] = 0"
  by (simp add: bucketCount_def)

lemma alist_update_bucketCount:
  "bucketCount k (AList.update k' v rm)
     + (if k' = k then (case map_of rm k' of None \<Rightarrow> 0 | Some b \<Rightarrow> count b) else 0)
   = bucketCount k rm + (if k' = k then count v else 0)"
  by (induction rm) (auto simp: bucketCount_def)

lemma processMessage_bucketCount:
  "bucketCount k (processMessage m rm)
     = bucketCount k rm + (if counted m \<and> keyOf m = k then 1 else 0)"
proof (cases "counted m")
  case False
  then show ?thesis by (simp add: processMessage_not_counted)
next
  case True
  define b0 where "b0 = (case map_of rm (keyOf m) of
      None \<Rightarrow> newBucket (fst (parseFrom (getFrom m))) (snd (parseFrom (getFrom m)))
    | Some b \<Rightarrow> b)"
  have pm: "processMessage m rm = AList.update (keyOf m) (absorbMessage b0 m) rm"
    unfolding b0_def by (rule processMessage_counted_eq[OF True])
  have c0: "(case map_of rm (keyOf m) of None \<Rightarrow> 0 | Some b \<Rightarrow> count b) = count b0"
    unfolding b0_def by (simp add: newBucket_def split: option.splits)
  from alist_update_bucketCount[of k "keyOf m" "absorbMessage b0 m" rm]
  show ?thesis unfolding pm c0 using True by (simp add: absorbMessage_count split: if_splits)
qed

lemma processMessages_bucketCount:
  "bucketCount k (processMessages ms rm) = bucketCount k rm + occurrences k ms"
  by (induction ms arbitrary: rm) (simp_all add: processMessage_bucketCount occurrences_def)

lemma objectEntries_bucketCount: "bucketCount k (objectEntries rm) = bucketCount k rm"
  unfolding bucketCount_def objectEntries_def
  by (simp add: sum_sort_key sum_filter_split)

lemma partitionKeys_bucketCount:
  "keysFolded es \<Longrightarrow>
   keyCount k (map snd (fst (partitionKeys im es)))
     + sum_list (map (\<lambda>u. if fst u = k then count (snd (snd u)) else 0)
                  (snd (partitionKeys im es)))
   = bucketCount k es"
proof (induction es)
  case Nil
  then show ?case by (simp add: keyCount_def bucketCount_def)
next
  case (Cons kb rest)
  obtain key b where kb: "kb = (key, b)" by (cases kb)
  from Cons.prems have kf: "keysFolded rest" and e: "email b = key"
    by (simp_all add: keysFolded_def kb)
  from Cons.IH[OF kf] e show ?case
    by (cases "im key")
       (simp_all add: kb keyCount_def bucketCount_def buildRowFromBucket_def)
qed

lemma updateExisting_keyCount:
  assumes "2 \<le> fst (snd u)" "fst (snd u) - 2 < length sh"
    and "senderEmail (sh ! (fst (snd u) - 2)) = fst u" and "fst u \<noteq> []"
  shows "keyCount k (updateExisting sh u)
           = keyCount k sh + (if fst u = k then count (snd (snd u)) else 0)"
proof -
  obtain k' r b where u: "u = (k', r, b)" by (cases u)
  with assms have r: "2 \<le> r" "r - 2 < length sh" and e: "senderEmail (sh ! (r - 2)) = k'"
    and ne: "k' \<noteq> []" by simp_all
  let ?f = "\<lambda>r. if senderEmail r = k then rowCount r else 0"
  let ?v = "mergeRowVals (sh ! (r - 2)) b"
  have up: "updateExisting sh u = sh[r - 2 := ?v]"
    using r by (simp add: u updateExisting_def setRow_def getRow_def)
  have v: "?f ?v = ?f (sh ! (r - 2)) + (if k' = k then count b else 0)"
    using e ne by (simp add: mergeRowVals_def Let_def)
  from sum_list_update_nat[OF r(2), of ?f ?v]
  show ?thesis unfolding keyCount_def up v by (simp add: u)
qed

lemma foldl_updateExisting_keyCount:
  "\<forall>u \<in> set us. 2 \<le> fst (snd u) \<and> fst (snd u) - 2 < length sh
        \<and> senderEmail (sh ! (fst (snd u) - 2)) = fst u \<Longrightarrow>
   \<forall>e \<in> set (map senderEmail sh). e \<noteq> [] \<Longrightarrow>
   keyCount k (foldl updateExisting sh us)
     = keyCount k sh + sum_list (map (\<lambda>u. if fst u = k then count (snd (snd u)) else 0) us)"
proof (induction us arbitrary: sh)
  case Nil
  then show ?case by simp
next
  case (Cons u us)
  from Cons.prems have u: "2 \<le> fst (snd u)" "fst (snd u) - 2 < length sh"
    "senderEmail (sh ! (fst (snd u) - 2)) = fst u" by simp_all
  then have ne: "fst u \<noteq> []" using Cons.prems(2) by (metis nth_map length_map nth_mem)
  have e: "map senderEmail (updateExisting sh u) = map senderEmail sh"
    using Cons.prems u by (intro updateExisting_emails) simp_all
  then have l: "length (updateExisting sh u) = length sh" by (metis length_map)
  have n: "senderEmail (updateExisting sh u ! i) = senderEmail (sh ! i)" if "i < length sh" for i
    using e that by (metis l nth_map)
  have "keyCount k (foldl updateExisting (updateExisting sh u) us)
          = keyCount k (updateExisting sh u)
            + sum_list (map (\<lambda>u. if fst u = k then count (snd (snd u)) else 0) us)"
    using Cons.prems by (intro Cons.IH) (simp_all add: e l n)
  then show ?case using updateExisting_keyCount[OF u ne, of k] by simp
qed

lemma keyCount_append: "keyCount k (xs @ ys) = keyCount k xs + keyCount k ys"
  by (simp add: keyCount_def)

text \<open>
  Under the same conditions the appends and the updates add to each address the count of
  its bucket.
\<close>

theorem mergeWrites_keyCount:
  assumes "indexMatches sh ix" and "wellKeyed rm"
  shows "keyCount k (fst (mergeWrites sh ix rm)) = keyCount k sh + bucketCount k rm"
proof -
  let ?im = "readIndex ix"
  let ?es = "objectEntries rm"
  let ?new = "fst (partitionKeys ?im ?es)"
  let ?ups = "snd (partitionKeys ?im ?es)"
  let ?sh1 = "sh @ map snd ?new"
  note iD = indexMatchesD[OF assms(1)]
  from assms(2) have kf: "keysFolded rm" and nk: "list_all normalKey (map fst rm)"
    by (simp_all add: wellKeyed_def)
  have kfe: "keysFolded ?es" using kf by (simp add: keysFolded_def set_objectEntries)
  have nke: "list_all normalKey (map fst ?es)"
    using nk by (simp add: list_all_iff set_objectEntries)
  have nknew: "list_all normalKey (map fst ?new)"
    using nke by (auto simp: partitionKeys_new_keys list_all_iff)
  have emails1: "map senderEmail ?sh1 = map fst ix @ map fst ?new"
    using iD(1) partitionKeys_new_emails[OF kfe] by simp
  have ne1: "\<forall>e \<in> set (map senderEmail ?sh1). e \<noteq> []"
    unfolding emails1 using normalKey_nonempty[OF iD(4)] normalKey_nonempty[OF nknew] by auto
  have ups: "\<forall>u \<in> set ?ups. 2 \<le> fst (snd u) \<and> fst (snd u) - 2 < length ?sh1
               \<and> senderEmail (?sh1 ! (fst (snd u) - 2)) = fst u"
  proof
    fix u assume "u \<in> set ?ups"
    then have "?im (fst u) = Some (fst (snd u))" by (rule partitionKeys_existing)
    then show "2 \<le> fst (snd u) \<and> fst (snd u) - 2 < length ?sh1
               \<and> senderEmail (?sh1 ! (fst (snd u) - 2)) = fst u"
      using readIndex_indexMatches[OF assms(1), of "fst u" "fst (snd u)"]
      by (simp add: nth_append)
  qed
  have "keyCount k (fst (mergeWrites sh ix rm))
          = keyCount k ?sh1
            + sum_list (map (\<lambda>u. if fst u = k then count (snd (snd u)) else 0) ?ups)"
    using foldl_updateExisting_keyCount[OF ups ne1, of k] by (simp add: mergeWrites_def Let_def)
  also have "\<dots> = keyCount k sh + bucketCount k ?es"
    using partitionKeys_bucketCount[OF kfe, of k ?im] by (simp add: keyCount_append)
  finally show ?thesis by (simp add: objectEntries_bucketCount)
qed

lemma indexMatches_empty: "indexMatches [] []"
  by (simp add: indexMatches_def)

text \<open>
  A sequence of merges, one for the messages of each checkpoint, keeps the index right and
  stores for each address the number of its counted messages. The result depends on the
  messages only, not on where the checkpoints fall.
\<close>

theorem batches_before_sort:
  assumes "indexMatches (fst st) (snd st)"
  shows "indexMatches (fst (foldl mergeBeforeSort st batches))
           (snd (foldl mergeBeforeSort st batches))
       \<and> keyCount k (fst (foldl mergeBeforeSort st batches))
           = keyCount k (fst st) + occurrences k (concat batches)"
  using assms
proof (induction batches arbitrary: st)
  case Nil
  then show ?case by (simp add: occurrences_def)
next
  case (Cons ms batches)
  let ?st = "mergeBeforeSort st ms"
  have wk: "wellKeyed (processMessages ms [])"
    by (rule processMessages_wellKeyed) (rule wellKeyed_Nil)
  have i: "indexMatches (fst ?st) (snd ?st)"
    unfolding mergeBeforeSort_def by (rule mergeWrites_indexMatches[OF Cons.prems wk])
  have c: "keyCount k (fst ?st) = keyCount k (fst st) + occurrences k ms"
    unfolding mergeBeforeSort_def
    using mergeWrites_keyCount[OF Cons.prems wk, of k]
    by (simp add: processMessages_bucketCount bucketCount_Nil)
  from Cons.IH[OF i] c show ?case by (simp add: occurrences_def)
qed

corollary batches_from_empty:
  "keyCount k (fst (foldl mergeBeforeSort ([], []) batches)) = occurrences k (concat batches)"
proof -
  have "indexMatches (fst ([], [])) (snd ([], []))"
    by (simp add: indexMatches_empty)
  from batches_before_sort[OF this, where k = k and batches = batches] show ?thesis
    by (simp add: keyCount_def)
qed

section \<open>The saved cursor between the checkpoints of a cycle\<close>

text \<open>
  A cycle of \<open>buildSenderReportBatch\<close> passes through the states \<open>cycleStates\<close>: the state in
  which the main loop is entered, the state after each iteration of the loop, and the state
  after the final checkpoint. The store and the resumption state change at the checkpoints
  only, so these are the states in which a cycle that is cut short leaves them. The loop
  function \<open>mainLoop\<close> returns the last of the states of the loop.
\<close>

lemma loopStates_nonempty: "loopStates clk rs inbox s \<noteq> []"
  by (simp add: loopStates.simps[of clk rs inbox s])

lemma mainLoop_last:
  "mainLoop clk rs inbox s
     = (last (loopStates clk rs inbox s))\<lparr>ticks := Suc (ticks (last (loopStates clk rs inbox s)))\<rparr>"
proof (induction clk rs inbox s rule: mainLoop.induct)
  case (1 clk rs inbox s)
  show ?case
  proof (cases "clk (ticks s) - rs > RUNTIME_HARD_LIMIT_MS
                \<or> search inbox (cursor s) PAGE_SIZE_THREADS = []")
    case True
    then show ?thesis
      by (auto simp: mainLoop.simps[of clk rs inbox s] loopStates.simps[of clk rs inbox s])
  next
    case False
    then have a: "\<not> clk (ticks s) - rs > RUNTIME_HARD_LIMIT_MS"
      and b: "search inbox (cursor s) PAGE_SIZE_THREADS \<noteq> []" by simp_all
    from "1.IH"[OF a b] a b show ?thesis
      by (simp add: mainLoop.simps[of clk rs inbox s] loopStates.simps[of clk rs inbox s]
            loopStates_nonempty)
  qed
qed

lemma loopBody_resumable:
  assumes "resumable c0 s"
  shows "resumable c0 (loopBody clk rs ths s)"
  using assms
  by (simp add: resumable_def savedCursor_def loopBody_def Let_def doCheckpoint_def
        checkpoint_def propOr0_def)

lemma resumable_ticks: "resumable c0 (s\<lparr>ticks := t\<rparr>) = resumable c0 s"
  by (simp add: resumable_def savedCursor_def)

lemma loopStates_hd: "hd (loopStates clk rs inbox s) = s"
  by (simp add: loopStates.simps[of clk rs inbox s])

lemma zip_tl_Cons: "ys \<noteq> [] \<Longrightarrow> zip (x # ys) (tl (x # ys)) = (x, hd ys) # zip ys (tl ys)"
  by (cases ys) simp_all

lemma zip_tl_snoc: "xs \<noteq> [] \<Longrightarrow> zip (xs @ [y]) (tl (xs @ [y])) = zip xs (tl xs) @ [(last xs, y)]"
proof (induction xs)
  case Nil
  then show ?case by simp
next
  case (Cons a xs)
  show ?case
  proof (cases "xs = []")
    case True
    then show ?thesis by simp
  next
    case False
    then have "xs @ [y] \<noteq> []" by simp
    from zip_tl_Cons[OF this, of a] zip_tl_Cons[OF False, of a] Cons.IH[OF False] False
    show ?thesis by simp
  qed
qed

lemma loopStates_invariant:
  "(\<And>s. P s \<Longrightarrow> clk (ticks s) - rs \<le> RUNTIME_HARD_LIMIT_MS \<Longrightarrow>
         search inbox (cursor s) PAGE_SIZE_THREADS \<noteq> [] \<Longrightarrow>
         \<not> pageInterrupted clk rs (length (search inbox (cursor s) PAGE_SIZE_THREADS))
              (Suc (ticks s)) \<Longrightarrow>
         G s (loopBody clk rs (search inbox (cursor s) PAGE_SIZE_THREADS)
                (s\<lparr>ticks := Suc (ticks s)\<rparr>)) \<Longrightarrow>
         P (loopBody clk rs (search inbox (cursor s) PAGE_SIZE_THREADS)
              (s\<lparr>ticks := Suc (ticks s)\<rparr>))) \<Longrightarrow>
   P s \<Longrightarrow> \<not> hardLimitMidPage clk rs inbox s \<Longrightarrow>
   list_all (\<lambda>p. G (fst p) (snd p))
     (zip (loopStates clk rs inbox s) (tl (loopStates clk rs inbox s))) \<Longrightarrow>
   list_all P (loopStates clk rs inbox s)"
proof (induction clk rs inbox s rule: loopStates.induct)
  case (1 clk rs inbox s)
  note step = "1.prems"(1) and p = "1.prems"(2) and h = "1.prems"(3) and gl = "1.prems"(4)
  show ?case
  proof (cases "clk (ticks s) - rs > RUNTIME_HARD_LIMIT_MS
                \<or> search inbox (cursor s) PAGE_SIZE_THREADS = []")
    case True
    then show ?thesis using p
      by (auto simp: loopStates.simps[of clk rs inbox s])
  next
    case False
    then have a: "\<not> clk (ticks s) - rs > RUNTIME_HARD_LIMIT_MS"
      and b: "search inbox (cursor s) PAGE_SIZE_THREADS \<noteq> []" by simp_all
    let ?ths = "search inbox (cursor s) PAGE_SIZE_THREADS"
    let ?n = "loopBody clk rs ?ths (s\<lparr>ticks := Suc (ticks s)\<rparr>)"
    have L: "loopStates clk rs inbox s = s # loopStates clk rs inbox ?n"
      using a b by (simp add: loopStates.simps[of clk rs inbox s])
    from h a b
    have np: "\<not> pageInterrupted clk rs (length ?ths) (Suc (ticks s))"
      and nh: "\<not> hardLimitMidPage clk rs inbox ?n"
      by (simp_all add: hardLimitMidPage.simps[of clk rs inbox s])
    have z: "zip (loopStates clk rs inbox s) (tl (loopStates clk rs inbox s))
               = (s, ?n) # zip (loopStates clk rs inbox ?n) (tl (loopStates clk rs inbox ?n))"
      unfolding L using zip_tl_Cons[OF loopStates_nonempty, of s clk rs inbox ?n]
      by (simp add: loopStates_hd)
    from gl have g: "G s ?n"
      and gs: "list_all (\<lambda>p. G (fst p) (snd p))
                 (zip (loopStates clk rs inbox ?n) (tl (loopStates clk rs inbox ?n)))"
      unfolding z by simp_all
    from a have le: "clk (ticks s) - rs \<le> RUNTIME_HARD_LIMIT_MS" by simp
    have "P ?n" by (rule step[OF p le b np g])
    from "1.IH"[OF a b step this nh gs] p show ?thesis
      unfolding L by simp
  qed
qed

lemma list_all_True: "list_all (\<lambda>p. True) xs"
  by (simp add: list_all_iff)

lemma loopStates_accounted:
  assumes "accounted inbox c0 T0 s" and "\<not> hardLimitMidPage clk rs inbox s"
  shows "list_all (accounted inbox c0 T0) (loopStates clk rs inbox s)"
proof (rule loopStates_invariant[where P = "accounted inbox c0 T0" and G = "\<lambda>s n. True"])
  show "accounted inbox c0 T0 s" by fact
  show "\<not> hardLimitMidPage clk rs inbox s" by fact
  show "list_all (\<lambda>p. True) (zip (loopStates clk rs inbox s) (tl (loopStates clk rs inbox s)))"
    by (rule list_all_True)
next
  fix s
  assume a: "accounted inbox c0 T0 s"
    and np: "\<not> pageInterrupted clk rs (length (search inbox (cursor s) PAGE_SIZE_THREADS))
               (Suc (ticks s))"
  let ?s1 = "s\<lparr>ticks := Suc (ticks s)\<rparr>"
  have "accounted inbox c0 T0 (loopBody clk rs (search inbox (cursor ?s1) PAGE_SIZE_THREADS) ?s1)"
    by (rule loopBody_accounted) (simp_all add: accounted_ticks a np)
  then show "accounted inbox c0 T0
               (loopBody clk rs (search inbox (cursor s) PAGE_SIZE_THREADS) ?s1)"
    by simp
qed

lemma loopStates_resumable:
  assumes "resumable c0 s" and "\<not> hardLimitMidPage clk rs inbox s"
  shows "list_all (resumable c0) (loopStates clk rs inbox s)"
proof (rule loopStates_invariant[where P = "resumable c0" and G = "\<lambda>s n. True"])
  show "resumable c0 s" by fact
  show "\<not> hardLimitMidPage clk rs inbox s" by fact
  show "list_all (\<lambda>p. True) (zip (loopStates clk rs inbox s) (tl (loopStates clk rs inbox s)))"
    by (rule list_all_True)
next
  fix s
  assume "resumable c0 s"
  then show "resumable c0 (loopBody clk rs (search inbox (cursor s) PAGE_SIZE_THREADS)
                             (s\<lparr>ticks := Suc (ticks s)\<rparr>))"
    by (simp add: loopBody_resumable resumable_ticks)
qed

lemma occurrences_append: "occurrences k (xs @ ys) = occurrences k xs + occurrences k ys"
  by (simp add: occurrences_def)

lemma processThreads_bucketCount:
  "\<not> pageInterrupted clk rs (length ths) t \<Longrightarrow>
   bucketCount k (fst (processThreads clk rs ths rm t))
     = bucketCount k rm + occurrences k (concat ths)"
proof (induction ths arbitrary: rm t)
  case Nil
  then show ?case by (simp add: occurrences_def)
next
  case (Cons a ths)
  from Cons.prems have ok: "\<not> clk t - rs > RUNTIME_HARD_LIMIT_MS"
    and rest: "\<not> pageInterrupted clk rs (length ths) (Suc t)"
    by (simp_all add: pageInterrupted_Suc)
  have a: "bucketCount k (if a = [] then rm else processMessages a rm)
             = bucketCount k rm + occurrences k a"
    by (simp add: processMessages_bucketCount occurrences_def)
  show ?case
    using ok Cons.IH[OF rest, of "if a = [] then rm else processMessages a rm"] a
    by (simp add: occurrences_append)
qed

lemma processThreads_wellKeyed:
  "wellKeyed rm \<Longrightarrow> wellKeyed (fst (processThreads clk rs ths rm t))"
  by (induction ths arbitrary: rm t) (simp_all add: processMessages_wellKeyed)

lemma occurrencesIn_step:
  assumes "c0 \<le> c"
  shows "occurrencesIn k inbox c0 (c + length (search inbox c n))
           = occurrencesIn k inbox c0 c + occurrences k (concat (search inbox c n))"
proof -
  let ?xs = "drop c0 inbox"
  have d: "drop (c - c0) ?xs = drop c inbox" using assms by simp
  have t: "take (min (length inbox - c) n) (drop c inbox) = take n (drop c inbox)"
    by (cases "n \<le> length inbox - c") (simp_all add: min_def)
  have "take (c + length (search inbox c n) - c0) ?xs
          = take (c - c0) ?xs @ take (length (search inbox c n)) (drop (c - c0) ?xs)"
    using assms take_add[of "c - c0" "length (search inbox c n)" ?xs] by simp
  also have "\<dots> = take (c - c0) ?xs @ search inbox c n"
    unfolding d by (simp add: search_def t)
  finally show ?thesis by (simp add: occurrencesIn_def occurrences_append)
qed

lemma occurrencesIn_same: "occurrencesIn k inbox c c = 0"
  by (simp add: occurrencesIn_def occurrences_def)

lemma keyCount_sortByCountDesc: "keyCount k (sortByCountDesc sh) = keyCount k sh"
  by (simp add: keyCount_def sortByCountDesc_def sum_sort_key)

lemma merge_keyCount:
  assumes "indexMatches sh ix" and "wellKeyed rm"
  shows "keyCount k (fst (mergeRunMapUsingIndex sh ix rm)) = keyCount k sh + bucketCount k rm"
  using mergeWrites_keyCount[OF assms, of k]
  by (simp add: mergeRunMapUsingIndex_def keyCount_sortByCountDesc bucketCount_Nil)

lemma doCheckpoint_keyCount:
  assumes "indexMatches (sheet s) (indexSheet s)" and "wellKeyed (runMap s)"
  shows "keyCount k (sheet (doCheckpoint s)) = keyCount k (sheet s) + bucketCount k (runMap s)"
  using merge_keyCount[OF assms, of k] by (simp add: doCheckpoint_def checkpoint_def Let_def)

lemma doCheckpoint_savedCursor: "savedCursor (doCheckpoint s) = cursor s"
  by (simp add: savedCursor_def doCheckpoint_facts propOr0_def)

lemma loopBody_accountedKey:
  assumes "accountedKey k inbox c0 K0 s" and "c0 \<le> cursor s"
    and "\<not> pageInterrupted clk rs (length (search inbox (cursor s) n)) (ticks s)"
    and "checkpointCount (loopBody clk rs (search inbox (cursor s) n) s) \<noteq> checkpointCount s
         \<longrightarrow> indexMatches (sheet s) (indexSheet s)"
  shows "accountedKey k inbox c0 K0 (loopBody clk rs (search inbox (cursor s) n) s)"
proof -
  let ?ths = "search inbox (cursor s) n"
  let ?pt = "processThreads clk rs ?ths (runMap s) (ticks s)"
  define s1 where "s1 = s\<lparr>runMap := fst ?pt,
                 cursor := cursor s + length ?ths,
                 threadsSinceCheckpoint := threadsSinceCheckpoint s + length ?ths,
                 totalProcessed := totalProcessed s + length ?ths,
                 ticks := Suc (snd ?pt)\<rparr>"
  define cp where "cp = ((threadsSinceCheckpoint s1 \<ge> CHECKPOINT_THREADS
                          \<or> clk (snd ?pt) - lastCheckpointTime s \<ge> CHECKPOINT_INTERVAL_MS)
                         \<and> runMap s1 \<noteq> [])"
  have lb: "loopBody clk rs ?ths s
              = (if cp then (doCheckpoint s1)\<lparr>runMap := [], threadsSinceCheckpoint := 0,
                     lastCheckpointTime := clk (Suc (snd ?pt)), ticks := Suc (Suc (snd ?pt))\<rparr>
                 else s1)"
    unfolding loopBody_def Let_def s1_def[symmetric] cp_def by (simp add: s1_def)
  from assms(1) have wk: "wellKeyed (runMap s)" by (simp add: accountedKey_def)
  have rm: "bucketCount k (fst ?pt) = bucketCount k (runMap s) + occurrences k (concat ?ths)"
    using processThreads_bucketCount[OF assms(3)] .
  have wk1: "wellKeyed (runMap s1)"
    using processThreads_wellKeyed[OF wk] by (simp add: s1_def)
  have a1: "accountedKey k inbox c0 K0 s1"
    using assms(1) rm wk1 occurrencesIn_step[OF assms(2), of k inbox n]
    by (simp add: accountedKey_def s1_def savedCursor_def)
  show ?thesis
  proof (cases cp)
    case False
    with a1 show ?thesis by (simp add: lb)
  next
    case True
    then have "checkpointCount (loopBody clk rs ?ths s) \<noteq> checkpointCount s"
      by (simp add: lb doCheckpoint_def Let_def s1_def)
    with assms(4) have "indexMatches (sheet s) (indexSheet s)" by simp
    then have im1: "indexMatches (sheet s1) (indexSheet s1)" by (simp add: s1_def)
    have "accountedKey k inbox c0 K0 ((doCheckpoint s1)\<lparr>runMap := [], threadsSinceCheckpoint := 0,
                 lastCheckpointTime := x, ticks := y\<rparr>)" for x y
      using a1 doCheckpoint_keyCount[OF im1 wk1, of k] doCheckpoint_savedCursor[of s1]
      by (simp add: accountedKey_def savedCursor_def doCheckpoint_facts bucketCount_Nil
            wellKeyed_Nil)
    with True show ?thesis by (simp add: lb)
  qed
qed

lemma loopBody_cursor_ge: "cursor s \<le> cursor (loopBody clk rs ths s)"
  by (simp add: loopBody_def Let_def doCheckpoint_def)

lemma accountedKey_ticks:
  "accountedKey k inbox c0 K0 (s\<lparr>ticks := t\<rparr>) = accountedKey k inbox c0 K0 s"
  by (simp add: accountedKey_def savedCursor_def)

lemma loopStates_accountedKey:
  assumes "c0 \<le> cursor s \<and> accountedKey k inbox c0 K0 s"
    and "\<not> hardLimitMidPage clk rs inbox s"
    and "list_all (\<lambda>p. checkpointOnMatch (fst p) (snd p))
           (zip (loopStates clk rs inbox s) (tl (loopStates clk rs inbox s)))"
  shows "list_all (\<lambda>s. c0 \<le> cursor s \<and> accountedKey k inbox c0 K0 s)
           (loopStates clk rs inbox s)"
proof (rule loopStates_invariant[where P = "\<lambda>s. c0 \<le> cursor s \<and> accountedKey k inbox c0 K0 s"
         and G = checkpointOnMatch])
  show "c0 \<le> cursor s \<and> accountedKey k inbox c0 K0 s" by fact
  show "\<not> hardLimitMidPage clk rs inbox s" by fact
  show "list_all (\<lambda>p. checkpointOnMatch (fst p) (snd p))
           (zip (loopStates clk rs inbox s) (tl (loopStates clk rs inbox s)))"
    by fact
next
  fix s :: scanState
  let ?s1 = "s\<lparr>ticks := Suc (ticks s)\<rparr>"
  let ?n = "loopBody clk rs (search inbox (cursor s) PAGE_SIZE_THREADS) ?s1"
  assume a: "c0 \<le> cursor s \<and> accountedKey k inbox c0 K0 s"
    and np: "\<not> pageInterrupted clk rs (length (search inbox (cursor s) PAGE_SIZE_THREADS))
               (Suc (ticks s))"
    and im: "checkpointOnMatch s ?n"
  have "accountedKey k inbox c0 K0
          (loopBody clk rs (search inbox (cursor ?s1) PAGE_SIZE_THREADS) ?s1)"
  proof (rule loopBody_accountedKey)
    show "accountedKey k inbox c0 K0 ?s1" using a by (simp add: accountedKey_ticks)
    show "c0 \<le> cursor ?s1" using a by simp
    show "\<not> pageInterrupted clk rs (length (search inbox (cursor ?s1) PAGE_SIZE_THREADS))
            (ticks ?s1)" using np by simp
    show "checkpointCount (loopBody clk rs (search inbox (cursor ?s1) PAGE_SIZE_THREADS) ?s1)
            \<noteq> checkpointCount ?s1 \<longrightarrow> indexMatches (sheet ?s1) (indexSheet ?s1)"
      using im by (simp add: checkpointOnMatch_def)
  qed
  moreover have "cursor ?s1 \<le> cursor ?n" by (rule loopBody_cursor_ge)
  ultimately show "c0 \<le> cursor ?n \<and> accountedKey k inbox c0 K0 ?n"
    using a by simp
qed

lemma startState_resumable:
  "resumable (cursor (startState clk sh ix pr)) (startState clk sh ix pr)"
  by (simp add: resumable_def savedCursor_def startState_def firstTimeInit_def Let_def)

lemma startState_savedCursor:
  "savedCursor (startState clk sh ix pr) = cursor (startState clk sh ix pr)"
  by (simp add: savedCursor_def startState_def Let_def)

lemma startState_accountedKey:
  "accountedKey k inbox (cursor (startState clk sh ix pr)) (keyCount k sh)
     (startState clk sh ix pr)"
proof -
  have "runMap (startState clk sh ix pr) = []"
    by (simp add: startState_def Let_def)
  then show ?thesis
    by (simp add: accountedKey_def startState_sheet startState_savedCursor occurrencesIn_same
          bucketCount_Nil wellKeyed_Nil)
qed

lemma finalCheckpoint_accounted:
  assumes "accounted inbox c0 T0 s" and "resumable c0 s"
  shows "resumable c0 (finalCheckpoint s)"
    and "totalEmails (getSheetStats (sheet (finalCheckpoint s)))
           = T0 + countedIn inbox c0 (savedCursor (finalCheckpoint s))"
  using assms
  by (auto simp: finalCheckpoint_def accounted_def resumable_def savedCursor_def
        doCheckpoint_facts propOr0_def doCheckpoint_def checkpoint_def Let_def merge_total)

lemma finalCheckpoint_accountedKey:
  assumes "accountedKey k inbox c0 K0 s" and "checkpointOnMatch s (finalCheckpoint s)"
  shows "keyCount k (sheet (finalCheckpoint s))
           = K0 + occurrencesIn k inbox c0 (savedCursor (finalCheckpoint s))"
    and "keyCount k (sheet (finalCheckpoint s))
           = K0 + occurrencesIn k inbox c0 (cursor (finalCheckpoint s))"
proof -
  have "keyCount k (sheet (finalCheckpoint s))
           = K0 + occurrencesIn k inbox c0 (savedCursor (finalCheckpoint s))
      \<and> keyCount k (sheet (finalCheckpoint s))
           = K0 + occurrencesIn k inbox c0 (cursor (finalCheckpoint s))"
  proof (cases "runMap s = []")
    case True
    with assms(1) show ?thesis
      by (simp add: finalCheckpoint_def accountedKey_def bucketCount_Nil)
  next
    case False
    then have f: "finalCheckpoint s = doCheckpoint s" by (simp add: finalCheckpoint_def)
    have "checkpointCount (doCheckpoint s) \<noteq> checkpointCount s"
      by (simp add: doCheckpoint_def Let_def)
    with assms(2) have im: "indexMatches (sheet s) (indexSheet s)"
      by (simp add: checkpointOnMatch_def f)
    from assms(1) have wk: "wellKeyed (runMap s)" by (simp add: accountedKey_def)
    from doCheckpoint_keyCount[OF im wk, of k] assms(1) show ?thesis
      by (simp add: f accountedKey_def doCheckpoint_savedCursor doCheckpoint_facts)
  qed
  then show "keyCount k (sheet (finalCheckpoint s))
           = K0 + occurrencesIn k inbox c0 (savedCursor (finalCheckpoint s))"
    and "keyCount k (sheet (finalCheckpoint s))
           = K0 + occurrencesIn k inbox c0 (cursor (finalCheckpoint s))"
    by simp_all
qed

lemma finish_finalCheckpoint:
  "sheet (fst (finish inbox s1)) = sheet (finalCheckpoint s1)"
  "cursor (fst (finish inbox s1)) = cursor (finalCheckpoint s1)"
  "(case snd (finish inbox s1) of
      ProgressSaved t st c \<Rightarrow>
        INITIALIZED (props (fst (finish inbox s1))) = INITIALIZED (props (finalCheckpoint s1))
    | _ \<Rightarrow> True)"
  by (simp_all add: finish_def finalCheckpoint_def Let_def)

lemma finish_after_finalCheckpoint:
  "fst (finish inbox s1)
     = (finalCheckpoint s1)
         \<lparr>props :=
            (if search inbox (cursor (finalCheckpoint s1)) 1 = []
             then (props (finalCheckpoint s1))
                    \<lparr>CURSOR := None, INITIALIZED := False, TOTAL_PROCESSED := None\<rparr>
             else (props (finalCheckpoint s1))
                    \<lparr>CURSOR := Some (cursor (finalCheckpoint s1)),
                     TOTAL_PROCESSED := Some (totalProcessed (finalCheckpoint s1))\<rparr>)\<rparr>"
  by (simp add: finish_def finalCheckpoint_def Let_def)

lemma checkpointOnMatch_ticks:
  "checkpointOnMatch (s\<lparr>ticks := t\<rparr>) n = checkpointOnMatch s n"
  by (simp add: checkpointOnMatch_def)

text \<open>
  Claim C1, amended. Take a cycle that the hard limit does not stop in the middle of a page.
  The cursor starts at the saved cursor, or at 0 when the resumption state is not
  initialized, whatever the store holds, and the store is kept as it is.

  In every state of the cycle the resumption state is initialized, the saved cursor lies
  between the start cursor and the cursor of the run, and the counts of the store sum to
  their sum at the start of the cycle plus the number of counted messages of the threads
  between the start cursor and the saved cursor. The totals that a checkpoint logs satisfy
  the same equation for the cursor it logs, and the store at the end of the cycle
  satisfies it for the final cursor, which is the saved cursor when the cycle reports
  saved progress.

  If moreover every checkpoint of the cycle began on an index that matched the sheet, the
  same holds for each address \<open>k\<close>: in every state of the cycle, and at its end, the counts of
  the rows of \<open>k\<close> sum to their sum at the start of the cycle plus the number of counted
  messages of \<open>k\<close> in those threads.
\<close>

theorem cursor_counts_merged_threads:
  assumes "\<not> hardLimitMidPage clk (clk 0) inbox (startState clk sh ix pr)"
  shows
    "(let c0 = cursor (startState clk sh ix pr);
          T0 = totalEmails (getSheetStats sh);
          states = cycleStates clk inbox sh ix pr;
          r = buildSenderReportBatch clk inbox sh ix pr
      in c0 = (if INITIALIZED pr then propOr0 (CURSOR pr) else 0)
       \<and> sheet (startState clk sh ix pr) = sh
       \<and> list_all (\<lambda>s. INITIALIZED (props s)
                        \<and> c0 \<le> savedCursor s \<and> savedCursor s \<le> cursor s
                        \<and> totalEmails (getSheetStats (sheet s))
                            = T0 + countedIn inbox c0 (savedCursor s)) states
       \<and> list_all (\<lambda>e. totalEmails (snd e) = T0 + countedIn inbox c0 (fst e))
           (consoleLog (fst r))
       \<and> sheet (fst r) = sheet (last states) \<and> cursor (fst r) = cursor (last states)
       \<and> totalEmails (getSheetStats (sheet (fst r))) = T0 + countedIn inbox c0 (cursor (fst r))
       \<and> (case snd r of
             ProgressSaved t st c \<Rightarrow>
               CURSOR (props (fst r)) = Some c \<and> c = cursor (fst r)
               \<and> INITIALIZED (props (fst r))
           | _ \<Rightarrow> True)
       \<and> (list_all (\<lambda>p. checkpointOnMatch (fst p) (snd p)) (zip states (tl states)) \<longrightarrow>
            list_all (\<lambda>s. keyCount k (sheet s)
                            = keyCount k sh + occurrencesIn k inbox c0 (savedCursor s)) states
            \<and> keyCount k (sheet (fst r))
                = keyCount k sh + occurrencesIn k inbox c0 (cursor (fst r))))"
proof -
  let ?s0 = "startState clk sh ix pr"
  let ?c0 = "cursor ?s0"
  let ?T0 = "totalEmails (getSheetStats sh)"
  let ?K0 = "keyCount k sh"
  have a0: "accounted inbox ?c0 ?T0 ?s0" by (rule startState_accounted)
  have r0: "resumable ?c0 ?s0" by (rule startState_resumable)
  have k0: "accountedKey k inbox ?c0 ?K0 ?s0" by (rule startState_accountedKey)
  show ?thesis
  proof (cases "search inbox ?c0 1 = []")
    case True
    then have b: "buildSenderReportBatch clk inbox sh ix pr
                 = (?s0, if senderCount (getSheetStats (sheet ?s0)) > 0
                         then NothingNew (getSheetStats (sheet ?s0)) else NoMessages)"
      and c: "cycleStates clk inbox sh ix pr = [?s0]"
      by (simp_all add: buildSenderReportBatch_def cycleStates_def Let_def)
    show ?thesis
      unfolding Let_def b c
      using a0 r0 k0
      by (simp add: startState_cursor startState_sheet startState_savedCursor accounted_def
            resumable_def accountedKey_def countedIn_same occurrencesIn_same)
  next
    case False
    let ?L = "loopStates clk (clk 0) inbox ?s0"
    let ?m = "mainLoop clk (clk 0) inbox ?s0"
    let ?f = "finalCheckpoint ?m"
    from False have b: "buildSenderReportBatch clk inbox sh ix pr = finish inbox ?m"
      and c: "cycleStates clk inbox sh ix pr = ?L @ [?f]"
      by (simp_all add: buildSenderReportBatch_def cycleStates_def Let_def)
    have ne: "?L \<noteq> []" by (rule loopStates_nonempty)
    have m: "?m = (last ?L)\<lparr>ticks := Suc (ticks (last ?L))\<rparr>" by (rule mainLoop_last)
    have la: "list_all (accounted inbox ?c0 ?T0) ?L"
      by (rule loopStates_accounted[OF a0 assms])
    have lr: "list_all (resumable ?c0) ?L"
      by (rule loopStates_resumable[OF r0 assms])
    have lastin: "last ?L \<in> set ?L" using ne by simp
    have am: "accounted inbox ?c0 ?T0 ?m"
      using la lastin unfolding m by (simp add: list_all_iff accounted_ticks)
    have rm: "resumable ?c0 ?m"
      using lr lastin unfolding m by (simp add: list_all_iff resumable_ticks)
    note fa = finalCheckpoint_accounted[OF am rm]
    note ff = finish_finalCheckpoint[of inbox ?m]
    have t1: "list_all (\<lambda>s. INITIALIZED (props s)
                        \<and> ?c0 \<le> savedCursor s \<and> savedCursor s \<le> cursor s
                        \<and> totalEmails (getSheetStats (sheet s))
                            = ?T0 + countedIn inbox ?c0 (savedCursor s)) (?L @ [?f])"
      using la lr fa
      by (auto simp: list_all_iff accounted_def resumable_def savedCursor_def)
    note fin = finish_accounted[OF am]
    have init: "(case snd (finish inbox ?m) of
             ProgressSaved t st c \<Rightarrow>
               CURSOR (props (fst (finish inbox ?m))) = Some c
               \<and> c = cursor (fst (finish inbox ?m))
               \<and> INITIALIZED (props (fst (finish inbox ?m)))
           | _ \<Rightarrow> True)"
      using fin ff(3) fa(1) by (auto simp: resumable_def split: outcome.splits)
    have t2: "list_all (\<lambda>s. keyCount k (sheet s)
                            = ?K0 + occurrencesIn k inbox ?c0 (savedCursor s)) (?L @ [?f])
            \<and> keyCount k (sheet (fst (finish inbox ?m)))
                = ?K0 + occurrencesIn k inbox ?c0 (cursor (fst (finish inbox ?m)))"
      if B: "list_all (\<lambda>p. checkpointOnMatch (fst p) (snd p))
               (zip (?L @ [?f]) (tl (?L @ [?f])))"
    proof -
      from B have BL: "list_all (\<lambda>p. checkpointOnMatch (fst p) (snd p)) (zip ?L (tl ?L))"
        and Bf: "checkpointOnMatch (last ?L) ?f"
        unfolding zip_tl_snoc[OF ne] by simp_all
      have "?c0 \<le> cursor ?s0 \<and> accountedKey k inbox ?c0 ?K0 ?s0" using k0 by simp
      from loopStates_accountedKey[OF this assms BL]
      have lk: "list_all (\<lambda>s. ?c0 \<le> cursor s \<and> accountedKey k inbox ?c0 ?K0 s) ?L" .
      have km: "accountedKey k inbox ?c0 ?K0 ?m"
        using lk lastin unfolding m by (simp add: list_all_iff accountedKey_ticks)
      have Bm: "checkpointOnMatch ?m ?f"
        using Bf by (subst m) (simp add: checkpointOnMatch_ticks)
      note fk = finalCheckpoint_accountedKey[OF km Bm]
      show ?thesis
        using lk fk by (auto simp: list_all_iff accountedKey_def ff)
    qed
    have g1: "?c0 = (if INITIALIZED pr then propOr0 (CURSOR pr) else 0)"
      by (rule startState_cursor)
    have g2: "sheet ?s0 = sh" by (rule startState_sheet)
    have g4: "list_all (\<lambda>e. totalEmails (snd e) = ?T0 + countedIn inbox ?c0 (fst e))
                (consoleLog (fst (finish inbox ?m)))"
      using fin by simp
    have g5: "sheet (fst (finish inbox ?m)) = sheet (last (?L @ [?f]))"
      and g6: "cursor (fst (finish inbox ?m)) = cursor (last (?L @ [?f]))"
      by (simp_all add: ff)
    have g7: "totalEmails (getSheetStats (sheet (fst (finish inbox ?m))))
                = ?T0 + countedIn inbox ?c0 (cursor (fst (finish inbox ?m)))"
      using fin by simp
    show ?thesis
      unfolding Let_def b c
      by (intro conjI impI g1 g2 t1 g4 g5 g6 g7 init t2[THEN conjunct1] t2[THEN conjunct2])
  qed
qed

text \<open>
  The theorem at a cycle of two checkpoints over \<open>steadySenders\<close>: one after the first page,
  made because a minute has passed, and the final one at the cursor 100, where the hard
  limit has ended the loop. The re-sort moves no row here, so both checkpoints begin on an
  index that matches the sheet.
\<close>

theorem cursor_counts_merged_threads_witness:
  "\<not> hardLimitMidPage twoPageClock (twoPageClock 0) steadySenders
        (startState twoPageClock [] [] noProps)
   \<and> list_all (\<lambda>p. checkpointOnMatch (fst p) (snd p))
        (zip (cycleStates twoPageClock steadySenders [] [] noProps)
             (tl (cycleStates twoPageClock steadySenders [] [] noProps)))
   \<and> map (\<lambda>s. (savedCursor s, map (\<lambda>r. (senderEmail r, rowCount r)) (sheet s)))
        (cycleStates twoPageClock steadySenders [] [] noProps)
       = [(0, []),
          (50, [(''ann@x.com'', 2), (''bob@y.org'', 1)]),
          (50, [(''ann@x.com'', 2), (''bob@y.org'', 1)]),
          (100, [(''ann@x.com'', 3), (''bob@y.org'', 1)])]
   \<and> snd (buildSenderReportBatch twoPageClock steadySenders [] [] noProps)
       = ProgressSaved 100 \<lparr>senderCount = 2, totalEmails = 4\<rparr> 100
   \<and> CURSOR (props (fst (buildSenderReportBatch twoPageClock steadySenders [] [] noProps)))
       = Some 100
   \<and> list_all (\<lambda>s. totalEmails (getSheetStats (sheet s))
                    = 0 + countedIn steadySenders 0 (savedCursor s))
        (cycleStates twoPageClock steadySenders [] [] noProps)
   \<and> list_all (\<lambda>s. keyCount ''ann@x.com'' (sheet s)
                    = 0 + occurrencesIn ''ann@x.com'' steadySenders 0 (savedCursor s))
        (cycleStates twoPageClock steadySenders [] [] noProps)"
proof -
  let ?states = "cycleStates twoPageClock steadySenders [] [] noProps"
  let ?r = "buildSenderReportBatch twoPageClock steadySenders [] [] noProps"
  have h: "\<not> hardLimitMidPage twoPageClock (twoPageClock 0) steadySenders
        (startState twoPageClock [] [] noProps)"
    by code_simp
  have e: "(let states = cycleStates twoPageClock steadySenders [] [] noProps
            in (list_all (\<lambda>p. checkpointOnMatch (fst p) (snd p)) (zip states (tl states)),
                map (\<lambda>s. (savedCursor s, map (\<lambda>r. (senderEmail r, rowCount r)) (sheet s)))
                  states))
           = (True,
              [(0, []),
               (50, [(''ann@x.com'', 2), (''bob@y.org'', 1)]),
               (50, [(''ann@x.com'', 2), (''bob@y.org'', 1)]),
               (100, [(''ann@x.com'', 3), (''bob@y.org'', 1)])])"
    by code_simp
  then have B: "list_all (\<lambda>p. checkpointOnMatch (fst p) (snd p)) (zip ?states (tl ?states))"
    and v: "map (\<lambda>s. (savedCursor s, map (\<lambda>r. (senderEmail r, rowCount r)) (sheet s))) ?states
       = [(0, []),
          (50, [(''ann@x.com'', 2), (''bob@y.org'', 1)]),
          (50, [(''ann@x.com'', 2), (''bob@y.org'', 1)]),
          (100, [(''ann@x.com'', 3), (''bob@y.org'', 1)])]"
    by (simp_all only: Let_def prod.inject)
  have f: "(let r = buildSenderReportBatch twoPageClock steadySenders [] [] noProps
            in (snd r, CURSOR (props (fst r))))
           = (ProgressSaved 100 \<lparr>senderCount = 2, totalEmails = 4\<rparr> 100, Some 100)"
    by code_simp
  then have o: "snd ?r = ProgressSaved 100 \<lparr>senderCount = 2, totalEmails = 4\<rparr> 100"
    and c: "CURSOR (props (fst ?r)) = Some 100"
    by (simp_all only: Let_def prod.inject)
  have z: "cursor (startState twoPageClock [] [] noProps) = 0"
    "totalEmails (getSheetStats []) = 0" "keyCount ''ann@x.com'' [] = 0"
    by (simp_all add: startState_cursor noProps_def getSheetStats_def keyCount_def)
  note T = cursor_counts_merged_threads[OF h, where k = "''ann@x.com''", unfolded Let_def z]
  from T have "list_all (\<lambda>s. INITIALIZED (props s)
                        \<and> 0 \<le> savedCursor s \<and> savedCursor s \<le> cursor s
                        \<and> totalEmails (getSheetStats (sheet s))
                            = 0 + countedIn steadySenders 0 (savedCursor s)) ?states"
    by (rule conjunct2[THEN conjunct2, THEN conjunct1])
  then have t1: "list_all (\<lambda>s. totalEmails (getSheetStats (sheet s))
                    = 0 + countedIn steadySenders 0 (savedCursor s)) ?states"
    unfolding list_all_iff by blast
  from T B have t2: "list_all (\<lambda>s. keyCount ''ann@x.com'' (sheet s)
                    = 0 + occurrencesIn ''ann@x.com'' steadySenders 0 (savedCursor s)) ?states"
    by blast
  from h B v o c t1 t2 show ?thesis by (intro conjI)
qed

end
